theory Spec2Isabelle
  imports Main
begin

section \<open>The ODBC driver's SQLExecute: sending a query and decoding the reply\<close>

text \<open>
  A shallow embedding of \<^verbatim>\<open>sql/src/odbc/driver/SQLExecute.c\<close>: the helpers
  \<^verbatim>\<open>convert\<close> and \<^verbatim>\<open>next_result\<close>, the table \<^verbatim>\<open>sql_types\<close> and the function
  \<^verbatim>\<open>SQLExecute\<close> itself (parameter substitution, header decoding, row decoding).

  C strings are \<open>string\<close>s holding the bytes before the terminating NUL. Counts and
  lengths are \<open>int\<close> and \<open>nat\<close>; the sizes of the two result arrays, which the code
  computes in C \<^verbatim>\<open>int\<close> from counts the server sends, are checked against \<open>INT_MAX\<close>.
  A run of the C code that leaves defined behaviour (a write behind a malloc'ed block,
  a read of an uninitialised or null value, a signed overflow, a failed \<^verbatim>\<open>assert\<close>) is
  the value \<open>Inl\<close> of a \<open>fault\<close>; everything the function returns normally,
  \<^verbatim>\<open>SQL_ERROR\<close> included, is \<open>Inr\<close>.
\<close>

datatype fault = OutOfBounds | UninitRead | NullRead | IntOverflow | AssertFailed

text \<open>The largest value of a C \<^verbatim>\<open>int\<close> (32 bits).\<close>

definition INT_MAX :: int where "INT_MAX = 2147483647"

abbreviation NUL :: char where "NUL \<equiv> CHR 0x00"
abbreviation TAB :: char where "TAB \<equiv> CHR 0x09"
abbreviation LF :: char where "LF \<equiv> CHR 0x0A"
abbreviation DQUOTE :: char where "DQUOTE \<equiv> CHR 0x22"
abbreviation SQUOTE :: char where "SQUOTE \<equiv> CHR 0x27"
abbreviation BACKSLASH :: char where "BACKSLASH \<equiv> CHR 0x5C"

subsection \<open>Constants of headers that are not part of the sources\<close>

text \<open>
  The type tags \<^verbatim>\<open>Q_END\<close>, \<^verbatim>\<open>Q_RESULT\<close>, \<^verbatim>\<open>Q_TABLE\<close>, \<^verbatim>\<open>Q_UPDATE\<close> and the buffer size
  \<^verbatim>\<open>BLOCK\<close> are macros of headers outside the sources at hand, so they are parameters.
\<close>

record config =
  Q_END :: int
  Q_RESULT :: int
  Q_TABLE :: int
  Q_UPDATE :: int
  BLOCK :: nat

text \<open>The return codes and C type codes of the standard ODBC headers.\<close>

definition SQL_SUCCESS :: int where "SQL_SUCCESS = 0"
definition SQL_ERROR :: int where "SQL_ERROR = - 1"
definition SQL_INVALID_HANDLE :: int where "SQL_INVALID_HANDLE = - 2"

definition SQL_C_CHAR :: int where "SQL_C_CHAR = 1"
definition SQL_C_FLOAT :: int where "SQL_C_FLOAT = 7"
definition SQL_C_DOUBLE :: int where "SQL_C_DOUBLE = 8"
definition SQL_C_BIT :: int where "SQL_C_BIT = - 7"
definition SQL_C_SSHORT :: int where "SQL_C_SSHORT = - 15"
definition SQL_C_SLONG :: int where "SQL_C_SLONG = - 16"
definition SQL_C_SBIGINT :: int where "SQL_C_SBIGINT = - 25"
definition SQL_C_UTINYINT :: int where "SQL_C_UTINYINT = - 28"
definition SQL_C_TYPE_DATE :: int where "SQL_C_TYPE_DATE = 91"
definition SQL_C_TYPE_TIME :: int where "SQL_C_TYPE_TIME = 92"
definition SQL_C_TYPE_TIMESTAMP :: int where "SQL_C_TYPE_TIMESTAMP = 93"

subsection \<open>The read stream\<close>

text \<open>
  Modelled from the spec: the stream library (\<^verbatim>\<open>stream_readInt\<close>, \<^verbatim>\<open>bs_read_next\<close>,
  \<^verbatim>\<open>bstream_create\<close>, \<^verbatim>\<open>bstream_read\<close>, \<^verbatim>\<open>stream_write\<close>) is not part of the sources.
  What the server has sent and the client has not read yet is a list of items, in wire
  order: an integer of a message header, a block of an error payload with its
  terminal marker, or a chunk of payload bytes as one read of the transport delivers it.
  The end of the list is the end of the stream.
\<close>

datatype item = Int_item int | Block string bool | Bytes string

type_synonym stream = "item list"

text \<open>
  Modelled from the spec: \<^verbatim>\<open>stream_readInt(rs, &v)\<close> reads one integer of a message header.
  It fails, consuming nothing and leaving \<^verbatim>\<open>v\<close> as it was, when no integer is next.
\<close>

fun stream_readInt :: "stream \<Rightarrow> int option \<times> stream" where
  "stream_readInt (Int_item v # rs) = (Some v, rs)"
| "stream_readInt rs = (None, rs)"

text \<open>
  Modelled from the spec: \<^verbatim>\<open>bs_read_next(rs, buf, &last)\<close> reads the next block of a
  length-delimited payload and sets \<^verbatim>\<open>last\<close> on the block carrying the terminal marker.
  When no block is next the read fails and reports \<^verbatim>\<open>last\<close>.
\<close>

fun bs_read_next :: "stream \<Rightarrow> bool \<times> stream" where
  "bs_read_next (Block b l # rs) = (l, rs)"
| "bs_read_next rs = (True, rs)"

text \<open>
  Modelled from the spec: the transport's read of at most \<open>n\<close> bytes. It delivers the
  next chunk, or its first \<open>n\<close> bytes when the chunk is longer; it delivers nothing at
  the end of the stream or when no payload bytes are next.
\<close>

fun stream_read :: "stream \<Rightarrow> nat \<Rightarrow> string \<times> stream" where
  "stream_read (Bytes c # rs) n =
     (if length c \<le> n then (c, rs) else (take n c, Bytes (drop n c) # rs))"
| "stream_read rs n = ([], rs)"

text \<open>
  Modelled from the spec: the type \<^verbatim>\<open>bstream\<close> is not part of the sources. It is the
  Stream Cursor, a buffer with a read offset \<open>pos\<close> and a write offset \<open>len\<close> over a
  stream. \<open>buf\<close> holds the initialised bytes of the allocation; the byte at \<open>len\<close>
  is an end-of-string NUL.
\<close>

record bstream =
  strm :: stream
  buf :: string
  pos :: nat
  len :: nat
  size_bs :: nat

text \<open>
  Modelled from the spec: \<^verbatim>\<open>bstream_create(rs, n)\<close>, not part of the sources, gives an
  empty buffer of size \<open>n\<close> over the stream; it reads nothing yet.
\<close>

definition bstream_create :: "stream \<Rightarrow> nat \<Rightarrow> bstream" where
  "bstream_create rs n = \<lparr>strm = rs, buf = [NUL], pos = 0, len = 0, size_bs = n\<rparr>"

text \<open>
  Modelled from the spec: \<^verbatim>\<open>bstream_read(bs, n)\<close> shifts the unread bytes \<open>pos..len\<close>
  (and the NUL behind them) to the start of the buffer, then reads at most \<open>n\<close> further
  bytes behind them, never more than the buffer has room for. It returns the number of
  bytes read, 0 at the end of the stream. Bytes behind the new \<open>len\<close> stay as they were.
\<close>

definition bstream_read :: "bstream \<Rightarrow> nat \<Rightarrow> nat \<times> bstream" where
  "bstream_read bs n =
     (let unread = len bs - pos bs;
          mem = (if 0 < pos bs
                 then take (unread + 1) (drop (pos bs) (buf bs)) @ drop (unread + 1) (buf bs)
                 else buf bs);
          (data, rs) = stream_read (strm bs) (min n (size_bs bs - unread));
          mem' = (if data = [] then mem
                  else take unread mem @ data @ [NUL] @ drop (unread + length data + 1) mem)
      in (length data,
          bs\<lparr>strm := rs, buf := mem', pos := 0, len := unread + length data\<rparr>))"

text \<open>\<^verbatim>\<open>strdup(buf + s)\<close>: the bytes from offset \<open>s\<close> up to the first NUL.\<close>

definition strdup_at :: "string \<Rightarrow> nat \<Rightarrow> string" where
  "strdup_at mem s = takeWhile (\<lambda>c. c \<noteq> NUL) (drop s mem)"

subsection \<open>convert: escaping a parameter value\<close>

text \<open>
  The first loop of \<^verbatim>\<open>convert\<close> computes the size of the block it allocates: 1, plus
  one per character, plus one more per quote.
\<close>

fun convert_len :: "string \<Rightarrow> nat" where
  "convert_len [] = 1"
| "convert_len (c # cs) = (if c = SQUOTE then 1 else 0) + 1 + convert_len cs"

text \<open>
  The second loop fills the block from offset 0. At a quote it writes a backslash,
  steps over one byte without writing it (\<^verbatim>\<open>len++\<close>), and then writes the quote.
  \<open>None\<close> is a byte that was never written.
\<close>

fun convert_fill :: "string \<Rightarrow> char option list" where
  "convert_fill [] = []"
| "convert_fill (c # cs) =
     (if c = SQUOTE then [Some BACKSLASH, None] else []) @ Some c # convert_fill cs"

text \<open>
  \<^verbatim>\<open>res[len] = '\0'\<close> closes the string behind the last byte written; the block has
  \<open>convert_len str\<close> bytes. The caller reads the result as a C string.
\<close>

definition convert :: "string \<Rightarrow> fault + string" where
  "convert str =
     (let res = convert_fill str in
      if convert_len str \<le> length res then Inl OutOfBounds
      else if None \<in> set res then Inl UninitRead
      else Inr (map the res))"

subsection \<open>Parameter substitution\<close>

text \<open>
  \<^verbatim>\<open>hstmt->bindParams\<close>: \<open>array\<close> lists the slots from slot 0 on (the parameters are
  numbered from 1). A slot holds the bound parameter, given by its
  \<^verbatim>\<open>ParameterValuePtr\<close> text, or \<open>None\<close> for a null pointer. The layout of the array
  is declared outside the sources; a slot behind the listed ones is taken to be null.
\<close>

record bind_params =
  size_bp :: nat
  array :: "string option list"

definition slot :: "bind_params \<Rightarrow> nat \<Rightarrow> string option" where
  "slot bp i = (if i < length (array bp) then array bp ! i else None)"

text \<open>
  \<^verbatim>\<open>strings\<close> is a block of \<open>size\<close> null pointers (\<^verbatim>\<open>calloc\<close>), used with the indices
  \<open>1..size\<close> of the parameters: index \<open>size\<close> is behind the block.
\<close>

definition strings_set :: "string option list \<Rightarrow> nat \<Rightarrow> string \<Rightarrow> fault + string option list" where
  "strings_set strings i v =
     (if i < length strings then Inr (strings[i := Some v]) else Inl OutOfBounds)"

definition strings_get :: "string option list \<Rightarrow> nat \<Rightarrow> fault + string" where
  "strings_get strings i =
     (if i < length strings
      then (case strings ! i of None \<Rightarrow> Inl NullRead | Some v \<Rightarrow> Inr v)
      else Inl OutOfBounds)"

text \<open>
  The loop \<^verbatim>\<open>for (i = 1; i <= size; i++)\<close> that converts the bound values and adds up
  \<^verbatim>\<open>queryLen\<close>; it stops at the first null slot.
\<close>

function convert_params ::
  "bind_params \<Rightarrow> nat \<Rightarrow> string option list \<Rightarrow> nat \<Rightarrow> fault + (string option list \<times> nat)" where
  "convert_params bp i strings queryLen =
     (if i \<le> size_bp bp then
        (case slot bp i of
           None \<Rightarrow> Inr (strings, queryLen)
         | Some v \<Rightarrow>
            (case convert v of
               Inl f \<Rightarrow> Inl f
             | Inr cv \<Rightarrow>
                (case strings_set strings i cv of
                   Inl f \<Rightarrow> Inl f
                 | Inr strings' \<Rightarrow>
                     convert_params bp (i + 1) strings' (queryLen + 2 + length cv))))
      else Inr (strings, queryLen))"
  by pat_completeness auto
termination
  by (relation "measure (\<lambda>(bp, i, strings, queryLen). size_bp bp + 1 - i)") auto

declare convert_params.simps [simp del]

text \<open>
  \<^verbatim>\<open>i += snprintf(Query + i, queryLen - i, ...)\<close> with the text \<open>s\<close> to print: at most
  \<open>queryLen - i - 1\<close> characters and a NUL are written at offset \<open>i\<close>, and the length of
  \<open>s\<close> is returned whether it was cut or not. With \<open>queryLen - i\<close> negative the size
  argument wraps to a huge unsigned value and the write leaves the block.
  \<open>Q\<close> is the C string in the block.
\<close>

definition snprintf :: "string \<Rightarrow> nat \<Rightarrow> nat \<Rightarrow> string \<Rightarrow> fault + (string \<times> nat)" where
  "snprintf Q i queryLen s =
     (if queryLen < i then Inl OutOfBounds
      else if queryLen = i then Inr (Q, i + length s)
      else Inr (take i Q @ take (queryLen - i - 1) s, i + length s))"

text \<open>\<^verbatim>\<open>Query[i] = '\0'\<close> in a block of \<open>queryLen\<close> bytes.\<close>

definition set_nul :: "string \<Rightarrow> nat \<Rightarrow> nat \<Rightarrow> fault + string" where
  "set_nul Q i queryLen = (if i < queryLen then Inr (take i Q) else Inl OutOfBounds)"

text \<open>
  The loop \<^verbatim>\<open>while (query && *query)\<close> over the copy of the template. \<open>query\<close> is the
  text from the scan pointer to the end of the template (the loop also ends when
  \<^verbatim>\<open>strchr\<close> made the pointer null). At a marker, \<open>old\<close> is the text before it; behind the
  marker \<open>old\<close> is set to the whole rest of the template, which the second \<^verbatim>\<open>snprintf\<close>
  prints.
\<close>

function subst_loop ::
  "bind_params \<Rightarrow> string option list \<Rightarrow> nat \<Rightarrow> string \<Rightarrow> string \<Rightarrow> nat \<Rightarrow> nat \<Rightarrow> fault + string" where
  "subst_loop bp strings queryLen query Q i params =
     (if query = [] then Inr Q
      else if CHR ''?'' \<in> set query then
        (let old = takeWhile (\<lambda>c. c \<noteq> CHR ''?'') query;
             rest = tl (dropWhile (\<lambda>c. c \<noteq> CHR ''?'') query)
         in case slot bp params of
              None \<Rightarrow> Inr Q
            | Some p \<Rightarrow>
               (case strings_get strings params of
                  Inl f \<Rightarrow> Inl f
                | Inr sv \<Rightarrow>
                   (case snprintf Q i queryLen (old @ [SQUOTE] @ sv @ [SQUOTE]) of
                      Inl f \<Rightarrow> Inl f
                    | Inr (Q1, i1) \<Rightarrow>
                       (case (if rest \<noteq> [] then snprintf Q1 i1 queryLen rest else Inr (Q1, i1)) of
                          Inl f \<Rightarrow> Inl f
                        | Inr (Q2, i2) \<Rightarrow>
                           (case set_nul Q2 i2 queryLen of
                              Inl f \<Rightarrow> Inl f
                            | Inr Q3 \<Rightarrow>
                                subst_loop bp strings queryLen rest Q3 i2 (params + 1))))))
      else
        (case snprintf Q i queryLen query of
           Inl f \<Rightarrow> Inl f
         | Inr (Q1, i1) \<Rightarrow> set_nul Q1 i1 queryLen))"
  by pat_completeness auto
termination
proof (relation "measure (\<lambda>(bp, strings, queryLen, query, Q, i, params). length query)")
  show "wf (measure (\<lambda>(bp, strings, queryLen, query, Q, i, params). length query))"
    by simp
next
  fix query :: string and rest
  assume "query \<noteq> []" and "CHR ''?'' \<in> set query"
    and r: "rest = tl (dropWhile (\<lambda>c. c \<noteq> CHR ''?'') query)"
  have "length (tl (dropWhile (\<lambda>c. c \<noteq> CHR ''?'') query)) < length query"
    using \<open>CHR ''?'' \<in> set query\<close>
    by (induction query) (auto simp: less_Suc_eq_le intro: le_trans [OF length_dropWhile_le])
  then show "\<And>bp strings queryLen Q3 i2 params.
      ((bp, strings, queryLen, rest, Q3, i2, params + 1),
       (bp, strings, queryLen, query, Q, i, params)) \<in>
      measure (\<lambda>(bp, strings, queryLen, query, Q, i, params). length query)" for Q i
    using r by simp
qed

declare subst_loop.simps [simp del]

text \<open>
  The block \<^verbatim>\<open>if (hstmt->bindParams.size) { ... }\<close>: the text that is sent. The block for
  \<^verbatim>\<open>Query\<close> has \<open>strlen(hstmt->Query) + 1\<close> bytes plus \<open>2 + strlen\<close> for every converted
  value, and starts as the empty string.
\<close>

definition substitute :: "string \<Rightarrow> bind_params \<Rightarrow> fault + string" where
  "substitute Query bp =
     (if size_bp bp \<noteq> 0 then
        (case convert_params bp 1 (replicate (size_bp bp) None) (length Query + 1) of
           Inl f \<Rightarrow> Inl f
         | Inr (strings, queryLen) \<Rightarrow> subst_loop bp strings queryLen Query [] 0 1)
      else Inr Query)"

subsection \<open>The statement handle\<close>

datatype stmt_state = PREPARED | EXECUTED | Other_state nat

text \<open>
  \<^verbatim>\<open>ColumnHeader\<close>, with the fields that SQLExecute computes from the header payload.
  (It also stores fixed literals in seven other text fields.) A text field is
  \<open>None\<close> while it is the null pointer that \<^verbatim>\<open>memset\<close> left.
\<close>

record ColumnHeader =
  pszSQL_DESC_BASE_COLUMN_NAME :: "string option"
  pszSQL_DESC_TYPE_NAME :: "string option"
  pszSQL_DESC_LABEL :: "string option"
  pszSQL_DESC_NAME :: "string option"
  nSQL_DESC_TYPE :: int
  nSQL_DESC_DISPLAY_SIZE :: int

definition zero_ColumnHeader :: ColumnHeader where
  "zero_ColumnHeader =
     \<lparr>pszSQL_DESC_BASE_COLUMN_NAME = None, pszSQL_DESC_TYPE_NAME = None,
      pszSQL_DESC_LABEL = None, pszSQL_DESC_NAME = None,
      nSQL_DESC_TYPE = 0, nSQL_DESC_DISPLAY_SIZE = 0\<rparr>"

record ODBCDbc =
  Mrs :: stream
  Mws :: string

text \<open>
  \<^verbatim>\<open>ODBCStmt\<close>, with the fields that SQLExecute uses (the type is declared outside the
  sources). \<open>valid\<close> is what \<^verbatim>\<open>isValidStmt\<close> answers for the handle; \<open>errors\<close> is the
  list of the errors recorded for it. \<open>ResultCols\<close> is the array of \<open>nCols + 1\<close> column
  headers (entry 0 is not used), \<open>ResultRows\<close> the array of \<open>(nCols + 1) * (nRows + 1)\<close>
  field pointers, where \<open>None\<close> is an entry that no field was stored in.
\<close>

record ODBCStmt =
  valid :: bool
  State :: stmt_state
  Query :: string
  bindParams :: bind_params
  errors :: "(string \<times> string option) list"
  nrCols :: int
  nrRows :: int
  currentRow :: int
  ResultCols :: "ColumnHeader list option"
  ResultRows :: "string option list option"
  Dbc :: ODBCDbc

text \<open>
  Modelled from the spec: \<^verbatim>\<open>addStmtError\<close> and \<^verbatim>\<open>clearStmtErrors\<close> are not part of the
  sources. The first appends an error, with its SQLSTATE and its message, to the
  statement's errors; the second empties them.
\<close>

definition addStmtError :: "ODBCStmt \<Rightarrow> string \<Rightarrow> string option \<Rightarrow> ODBCStmt" where
  "addStmtError hstmt sqlstate msg = hstmt\<lparr>errors := errors hstmt @ [(sqlstate, msg)]\<rparr>"

definition clearStmtErrors :: "ODBCStmt \<Rightarrow> ODBCStmt" where
  "clearStmtErrors hstmt = hstmt\<lparr>errors := []\<rparr>"

subsection \<open>next_result: the frame reader\<close>

text \<open>The loop \<^verbatim>\<open>while (!last) bs_read_next(rs, buf, &last)\<close>.\<close>

function read_while_not_last :: "bool \<Rightarrow> stream \<Rightarrow> stream" where
  "read_while_not_last lastf rs =
     (if \<not> lastf then (case bs_read_next rs of (lastf', rs') \<Rightarrow> read_while_not_last lastf' rs')
      else rs)"
  by pat_completeness auto
termination
  apply (relation "measure (\<lambda>(lastf, rs). 2 * length rs + (if lastf then 0 else 1))")
   apply simp
  subgoal for lastf rs
    by (cases rs rule: bs_read_next.cases) auto
  done

declare read_while_not_last.simps [simp del]

text \<open>
  \<^verbatim>\<open>next_result(rs, hstmt, &type)\<close>. The result is the value returned, the value left in
  \<^verbatim>\<open>*type\<close> (\<open>type\<close> is what it held before), the stream and the statement.
  \<^verbatim>\<open>status\<close> is a local without an initial value, and the result of the second
  \<^verbatim>\<open>stream_readInt\<close> is not looked at: when that read fails, the test reads an
  uninitialised value.
\<close>

definition next_result ::
  "config \<Rightarrow> stream \<Rightarrow> ODBCStmt \<Rightarrow> int \<Rightarrow> fault + (int \<times> int \<times> stream \<times> ODBCStmt)" where
  "next_result cfg rs hstmt type =
     (case stream_readInt rs of
        (None, rs1) \<Rightarrow> Inr (SQL_ERROR, type, rs1, addStmtError hstmt ''08S01'' None)
      | (Some t, rs1) \<Rightarrow>
          if t = Q_END cfg then Inr (SQL_ERROR, t, rs1, addStmtError hstmt ''08S01'' None)
          else
            (case stream_readInt rs1 of
               (None, rs2) \<Rightarrow> Inl UninitRead
             | (Some status, rs2) \<Rightarrow>
                 if t < 0 \<or> status < 0 then
                   (case bs_read_next rs2 of
                      (lastf, rs3) \<Rightarrow>
                        Inr (SQL_ERROR, t, read_while_not_last lastf rs3,
                             addStmtError hstmt ''HY000''
                               (Some ''No result available (status < 0)'')))
                 else Inr (status, t, rs2, hstmt)))"

subsection \<open>The table of type names\<close>

definition sql_types :: "(string \<times> int) list" where
  "sql_types =
     [(''bit'', SQL_C_BIT),
      (''uchr'', SQL_C_UTINYINT),
      (''char'', SQL_C_CHAR),
      (''sht'', SQL_C_SSHORT),
      (''int'', SQL_C_SLONG),
      (''lng'', SQL_C_SBIGINT),
      (''flt'', SQL_C_FLOAT),
      (''dbl'', SQL_C_DOUBLE),
      (''date'', SQL_C_TYPE_DATE),
      (''time'', SQL_C_TYPE_TIME),
      (''timestamp'', SQL_C_TYPE_TIMESTAMP)]"

text \<open>
  The loop \<^verbatim>\<open>for (p = sql_types; p->name; p++)\<close> with its \<^verbatim>\<open>strcmp\<close> and \<^verbatim>\<open>break\<close>: the type
  of the first entry with that name, \<open>None\<close> when the sentinel is reached.
\<close>

fun find_sql_type :: "(string \<times> int) list \<Rightarrow> string \<Rightarrow> int option" where
  "find_sql_type [] type = None"
| "find_sql_type (p # ps) type = (if fst p = type then Some (snd p) else find_sql_type ps type)"

subsection \<open>Scanning the buffered window\<close>

text \<open>
  \<^verbatim>\<open>while (sc < ec && !stop( *sc)) sc++\<close> over the buffer \<open>mem\<close>, with \<open>sc\<close> and \<open>ec\<close> as
  offsets. The offsets that are read lie below \<open>ec\<close>, the write offset of the buffer.
\<close>

function scan_until :: "(char \<Rightarrow> bool) \<Rightarrow> string \<Rightarrow> nat \<Rightarrow> nat \<Rightarrow> nat" where
  "scan_until stop mem sc ec =
     (if sc < ec \<and> \<not> stop (mem ! sc) then scan_until stop mem (Suc sc) ec else sc)"
  by pat_completeness auto
termination
  by (relation "measure (\<lambda>(stop, mem, sc, ec). ec - sc)") auto

declare scan_until.simps [simp del]

text \<open>
  \<^verbatim>\<open>eof = (bstream_read(bs, bs->size - (bs->len - bs->pos)) == 0)\<close>, and the same
  after \<^verbatim>\<open>bs->pos = s - bs->buf\<close>.
\<close>

definition fill :: "bstream \<Rightarrow> bool \<times> bstream" where
  "fill bs = (case bstream_read bs (size_bs bs - (len bs - pos bs)) of (rd, bs') \<Rightarrow> (rd = 0, bs'))"

definition refill :: "bstream \<Rightarrow> nat \<Rightarrow> bool \<times> bstream" where
  "refill bs s = fill (bs\<lparr>pos := s\<rparr>)"

datatype 'a flow = Next 'a | Exit 'a

subsection \<open>The header decoder\<close>

text \<open>
  The locals of the header block: the buffered stream, the scan pointer \<open>sc\<close> as an
  offset into its buffer (\<open>ec\<close> is always \<open>len\<close>), \<open>eof\<close>, the array
  \<^verbatim>\<open>hstmt->ResultCols\<close> and \<open>pCol\<close> as an index into it.
\<close>

record header_state =
  h_bs :: bstream
  h_sc :: nat
  h_eof :: bool
  h_cols :: "ColumnHeader list"
  h_pCol :: nat

text \<open>
  The end of one pass of the loop, from \<^verbatim>\<open>*sc = 0; type = strdup(s); sc++\<close> to
  \<^verbatim>\<open>pCol++\<close>, with the buffered stream, \<open>eof\<close>, \<open>sc\<close>, \<open>s\<close> and \<open>name\<close> as they are
  there. The type stays what \<^verbatim>\<open>memset\<close> made it when no table entry has the name.
  The array has \<open>nCols + 1\<close> entries; a store behind it is a fault.
\<close>

definition header_record ::
  "header_state \<Rightarrow> bstream \<Rightarrow> bool \<Rightarrow> nat \<Rightarrow> nat \<Rightarrow> string \<Rightarrow> fault + header_state flow" where
  "header_record st bs eof sc s name =
     (let mem = (buf bs)[sc := NUL];
          type = strdup_at mem s;
          pCol = h_pCol st
      in if pCol < length (h_cols st) then
           (let c = h_cols st ! pCol;
                c' = c\<lparr>nSQL_DESC_TYPE :=
                         (case find_sql_type sql_types type of
                            Some t \<Rightarrow> t
                          | None \<Rightarrow> nSQL_DESC_TYPE c),
                       pszSQL_DESC_BASE_COLUMN_NAME := Some name,
                       pszSQL_DESC_TYPE_NAME := Some type,
                       pszSQL_DESC_LABEL := Some name,
                       pszSQL_DESC_NAME := Some name,
                       nSQL_DESC_DISPLAY_SIZE := int (length name) + 2\<rparr>
            in Inr (Next (st\<lparr>h_bs := bs\<lparr>buf := mem\<rparr>, h_eof := eof, h_sc := sc + 1,
                              h_cols := (h_cols st)[pCol := c'], h_pCol := pCol + 1\<rparr>)))
         else Inl OutOfBounds)"

text \<open>
  One pass of \<^verbatim>\<open>while (sc < ec)\<close>: \<open>Next\<close> goes on with the loop (\<^verbatim>\<open>continue\<close> or the end
  of the body), \<open>Exit\<close> is a \<^verbatim>\<open>break\<close>. After the refill inside the type field the
  pointer \<open>s\<close> is not set again: it keeps the offset that the field had before the
  buffer was shifted.
\<close>

definition header_step :: "header_state \<Rightarrow> fault + header_state flow" where
  "header_step st =
     (let bs = h_bs st;
          s = h_sc st;
          sc = scan_until (\<lambda>c. c = CHR '','') (buf bs) s (len bs)
      in if len bs \<le> sc \<and> \<not> h_eof st then
           (case refill bs s of
              (eof', bs') \<Rightarrow> Inr (Next (st\<lparr>h_bs := bs', h_eof := eof', h_sc := pos bs'\<rparr>)))
         else if h_eof st then Inr (Exit st)
         else
           (let bs1 = bs\<lparr>buf := (buf bs)[sc := NUL]\<rparr>;
                name = strdup_at (buf bs1) s;
                s1 = sc + 1;
                sc1 = scan_until (\<lambda>c. c = LF) (buf bs1) s1 (len bs1)
            in if len bs1 \<le> sc1 \<and> \<not> h_eof st then
                 (case refill bs1 s1 of
                    (eof', bs') \<Rightarrow>
                      (let sc2 = scan_until (\<lambda>c. c = LF) (buf bs') (pos bs') (len bs')
                       in if len bs' \<le> sc2
                          then Inr (Exit (st\<lparr>h_bs := bs', h_eof := eof', h_sc := sc2\<rparr>))
                          else header_record st bs' eof' sc2 s1 name))
               else if h_eof st then Inr (Exit (st\<lparr>h_bs := bs1, h_sc := sc1\<rparr>))
               else header_record st bs1 (h_eof st) sc1 s1 name))"

text \<open>What the stream still holds: the measure under which the loop terminates.\<close>

fun avail :: "stream \<Rightarrow> nat" where
  "avail [] = 0"
| "avail (Bytes c # rs) = length c + 1 + avail rs"
| "avail (x # rs) = 1 + avail rs"

lemma stream_read_avail:
  "stream_read rs n = (data, rs') \<Longrightarrow>
     avail rs' \<le> avail rs \<and> (data \<noteq> [] \<longrightarrow> avail rs' < avail rs)"
  by (cases "(rs, n)" rule: stream_read.cases) (auto split: if_splits)

lemma fill_avail:
  "fill bs = (eof, bs') \<Longrightarrow>
     avail (strm bs') \<le> avail (strm bs) \<and> (\<not> eof \<longrightarrow> avail (strm bs') < avail (strm bs))"
  unfolding fill_def bstream_read_def
  by (auto simp: Let_def split: prod.splits dest: stream_read_avail)

lemma refill_avail:
  "refill bs s = (eof, bs') \<Longrightarrow>
     avail (strm bs') \<le> avail (strm bs) \<and> (\<not> eof \<longrightarrow> avail (strm bs') < avail (strm bs))"
  unfolding refill_def by (drule fill_avail) simp

lemma scan_until_ge: "sc \<le> scan_until stop mem sc ec"
  by (induction stop mem sc ec rule: scan_until.induct)
     (subst scan_until.simps, auto)

definition header_rel :: "(header_state \<times> header_state) set" where
  "header_rel = measures [\<lambda>st. avail (strm (h_bs st)), \<lambda>st. if h_eof st then 0 else 1,
                          \<lambda>st. len (h_bs st) - h_sc st]"

lemma header_record_Next:
  "header_record st bs eof sc s name = Inr (Next st') \<Longrightarrow>
     strm (h_bs st') = strm bs \<and> len (h_bs st') = len bs \<and> h_eof st' = eof \<and> h_sc st' = sc + 1"
  by (auto simp: header_record_def Let_def split: if_splits)

lemma header_step_decreases:
  assumes "header_step st = Inr (Next st')" and "h_sc st < len (h_bs st)"
  shows "(st', st) \<in> header_rel"
proof -
  let ?bs = "h_bs st"
  let ?sc = "scan_until (\<lambda>c. c = CHR '','') (buf ?bs) (h_sc st) (len ?bs)"
  show ?thesis
  proof (cases "len ?bs \<le> ?sc \<and> \<not> h_eof st")
    case True
    obtain eof' bs' where r: "refill ?bs (h_sc st) = (eof', bs')" by force
    from assms(1) True r have "st' = st\<lparr>h_bs := bs', h_eof := eof', h_sc := pos bs'\<rparr>"
      by (simp add: header_step_def Let_def)
    with refill_avail [OF r] True show ?thesis
      by (auto simp: header_rel_def)
  next
    case False
    with assms(1) have ne: "\<not> h_eof st"
      by (auto simp: header_step_def Let_def)
    with False have lt: "?sc < len ?bs" by simp
    let ?bs1 = "?bs\<lparr>buf := (buf ?bs)[?sc := NUL]\<rparr>"
    let ?sc1 = "scan_until (\<lambda>c. c = LF) (buf ?bs1) (?sc + 1) (len ?bs1)"
    have ge: "h_sc st \<le> ?sc" "?sc + 1 \<le> ?sc1" by (rule scan_until_ge)+
    show ?thesis
    proof (cases "len ?bs1 \<le> ?sc1")
      case True
      obtain eof' bs' where r: "refill ?bs1 (?sc + 1) = (eof', bs')" by force
      from assms(1) False ne True r
      have "header_record st bs' eof'
              (scan_until (\<lambda>c. c = LF) (buf bs') (pos bs') (len bs')) (?sc + 1)
              (strdup_at (buf ?bs1) (h_sc st)) = Inr (Next st')"
        by (simp add: header_step_def Let_def split: if_splits)
      from header_record_Next [OF this] refill_avail [OF r] ne show ?thesis
        by (auto simp: header_rel_def)
    next
      case c: False
      from assms(1) False ne c
      have "header_record st ?bs1 (h_eof st) ?sc1 (?sc + 1)
              (strdup_at (buf ?bs1) (h_sc st)) = Inr (Next st')"
        by (simp add: header_step_def Let_def split: if_splits)
      from header_record_Next [OF this] c ge ne show ?thesis
        by (auto simp: header_rel_def)
    qed
  qed
qed

text \<open>
  The loop \<^verbatim>\<open>while (sc < ec)\<close> of the header block. It is not bounded by \<open>nCols\<close>: it
  goes on while unscanned bytes are buffered.
\<close>

function header_loop :: "header_state \<Rightarrow> fault + header_state" where
  "header_loop st =
     (if h_sc st < len (h_bs st) then
        (case header_step st of
           Inl f \<Rightarrow> Inl f
         | Inr (Exit st') \<Rightarrow> Inr st'
         | Inr (Next st') \<Rightarrow> header_loop st')
      else Inr st)"
  by pat_completeness auto
termination
  apply (relation header_rel)
   apply (simp add: header_rel_def)
  apply (simp add: header_step_decreases)
  done

declare header_loop.simps [simp del]

text \<open>
  The header block up to \<^verbatim>\<open>bstream_destroy(bs)\<close>, for the stream behind the identifier
  that \<^verbatim>\<open>stream_readInt(rs, &id)\<close> has read: the stream as the buffered stream leaves
  it (what the buffer still holds is dropped) and the array \<^verbatim>\<open>hstmt->ResultCols\<close>.
  The number of entries \<^verbatim>\<open>nCols + 1\<close> of the array is computed in \<^verbatim>\<open>int\<close>, before
  anything is read.
\<close>

definition read_header :: "config \<Rightarrow> stream \<Rightarrow> nat \<Rightarrow> fault + (stream \<times> ColumnHeader list)" where
  "read_header cfg rs nCols =
     (if INT_MAX < int nCols + 1 then Inl IntOverflow
      else
        (case fill (bstream_create rs (BLOCK cfg)) of
           (eof, bs) \<Rightarrow>
             (case header_loop \<lparr>h_bs = bs, h_sc = pos bs, h_eof = eof,
                                h_cols = replicate (nCols + 1) zero_ColumnHeader, h_pCol = 1\<rparr> of
                Inl f \<Rightarrow> Inl f
              | Inr st \<Rightarrow> Inr (strm (h_bs st), h_cols st))))"

subsection \<open>The row decoder\<close>

record rows_state =
  r_bs :: bstream
  r_sc :: nat
  r_eof :: bool
  r_rows :: "string option list"

text \<open>
  \<^verbatim>\<open>if ( *s == q && *(sc - 1) == q) { s++; *(sc - 1) = '\0'; }\<close> for a quote character
  \<open>q\<close>. With \<open>sc\<close> at the start of the buffer, \<open>sc - 1\<close> lies before the block.
\<close>

definition unquote :: "char \<Rightarrow> string \<Rightarrow> nat \<Rightarrow> nat \<Rightarrow> fault + (string \<times> nat)" where
  "unquote q mem s sc =
     (if mem ! s = q then
        (if sc = 0 then Inl OutOfBounds
         else if mem ! (sc - 1) = q then Inr (mem[sc - 1 := NUL], s + 1)
         else Inr (mem, s))
      else Inr (mem, s))"

text \<open>
  The end of one pass of the inner loop, from \<^verbatim>\<open>*sc = '\0'\<close> to \<^verbatim>\<open>sc++\<close>: the field from
  \<open>s\<close> is stored at \<open>nRow * nCols + nCol\<close>.
\<close>

definition store_field ::
  "nat \<Rightarrow> nat \<Rightarrow> nat \<Rightarrow> rows_state \<Rightarrow> bstream \<Rightarrow> bool \<Rightarrow> nat \<Rightarrow> nat \<Rightarrow> fault + rows_state" where
  "store_field nCols nRow nCol st bs eof s sc =
     (case unquote DQUOTE ((buf bs)[sc := NUL]) s sc of
        Inl f \<Rightarrow> Inl f
      | Inr (mem2, s2) \<Rightarrow>
         (case unquote SQUOTE mem2 s2 sc of
            Inl f \<Rightarrow> Inl f
          | Inr (mem3, s3) \<Rightarrow>
              if nRow * nCols + nCol < length (r_rows st) then
                Inr (st\<lparr>r_bs := bs\<lparr>buf := mem3\<rparr>, r_eof := eof, r_sc := sc + 1,
                        r_rows := (r_rows st)[nRow * nCols + nCol := Some (strdup_at mem3 s3)]\<rparr>)
              else Inl OutOfBounds))"

text \<open>
  One pass of the inner loop. \<open>Exit\<close> is \<^verbatim>\<open>return SQL_ERROR\<close>. As in the header block,
  \<open>s\<close> keeps its offset over the refill.
\<close>

definition row_field :: "nat \<Rightarrow> nat \<Rightarrow> nat \<Rightarrow> rows_state \<Rightarrow> fault + rows_state flow" where
  "row_field nCols nRow nCol st =
     (let bs = r_bs st;
          s = r_sc st;
          sc = scan_until (\<lambda>c. c = TAB \<or> c = LF) (buf bs) s (len bs)
      in if len bs \<le> sc \<and> \<not> r_eof st then
           (case refill bs s of
              (eof', bs') \<Rightarrow>
                (let sc1 = scan_until (\<lambda>c. c = TAB \<or> c = LF) (buf bs') (pos bs') (len bs')
                 in if len bs' \<le> sc1
                    then Inr (Exit (st\<lparr>r_bs := bs', r_eof := eof', r_sc := sc1\<rparr>))
                    else (case store_field nCols nRow nCol st bs' eof' s sc1 of
                            Inl f \<Rightarrow> Inl f
                          | Inr st' \<Rightarrow> Inr (Next st'))))
         else (case store_field nCols nRow nCol st bs (r_eof st) s sc of
                 Inl f \<Rightarrow> Inl f
               | Inr st' \<Rightarrow> Inr (Next st')))"

text \<open>\<^verbatim>\<open>for (nCol = 1; nCol <= nCols && !eof; nCol++)\<close>\<close>

function cols_loop :: "nat \<Rightarrow> nat \<Rightarrow> nat \<Rightarrow> rows_state \<Rightarrow> fault + rows_state flow" where
  "cols_loop nCols nRow nCol st =
     (if nCol \<le> nCols \<and> \<not> r_eof st then
        (case row_field nCols nRow nCol st of
           Inl f \<Rightarrow> Inl f
         | Inr (Exit st') \<Rightarrow> Inr (Exit st')
         | Inr (Next st') \<Rightarrow> cols_loop nCols nRow (nCol + 1) st')
      else Inr (Next st))"
  by pat_completeness auto
termination
  by (relation "measure (\<lambda>(nCols, nRow, nCol, st). nCols + 1 - nCol)") auto

declare cols_loop.simps [simp del]

text \<open>\<^verbatim>\<open>for (nRow = 1; nRow <= nRows && !eof; nRow++)\<close>\<close>

function rows_loop :: "nat \<Rightarrow> nat \<Rightarrow> nat \<Rightarrow> rows_state \<Rightarrow> fault + rows_state flow" where
  "rows_loop nCols nRows nRow st =
     (if nRow \<le> nRows \<and> \<not> r_eof st then
        (case cols_loop nCols nRow 1 st of
           Inl f \<Rightarrow> Inl f
         | Inr (Exit st') \<Rightarrow> Inr (Exit st')
         | Inr (Next st') \<Rightarrow> rows_loop nCols nRows (nRow + 1) st')
      else Inr (Next st))"
  by pat_completeness auto
termination
  by (relation "measure (\<lambda>(nCols, nRows, nRow, st). nRows + 1 - nRow)") auto

declare rows_loop.simps [simp del]

text \<open>
  The table block from \<^verbatim>\<open>bstream_create\<close> on: whether the loops ran to their end
  (\<open>False\<close> is \<^verbatim>\<open>return SQL_ERROR\<close>), the stream as the buffered stream leaves it, and
  the array \<^verbatim>\<open>hstmt->ResultRows\<close>. The number of entries
  \<^verbatim>\<open>(nCols + 1) * (nRows + 1)\<close> of the array is computed in \<^verbatim>\<open>int\<close>, before anything is
  read; every index \<^verbatim>\<open>nRow * nCols + nCol\<close> of the loops lies below it. \<open>None\<close> is an
  entry that the loops have stored no field in.
\<close>

definition read_rows ::
  "config \<Rightarrow> stream \<Rightarrow> nat \<Rightarrow> nat \<Rightarrow> fault + (bool \<times> stream \<times> string option list)" where
  "read_rows cfg rs nCols nRows =
     (if INT_MAX < (int nCols + 1) * (int nRows + 1) then Inl IntOverflow
      else
        (case fill (bstream_create rs (BLOCK cfg)) of
           (eof, bs) \<Rightarrow>
             (case rows_loop nCols nRows 1
                     \<lparr>r_bs = bs, r_sc = pos bs, r_eof = eof,
                      r_rows = replicate ((nCols + 1) * (nRows + 1)) None\<rparr> of
                Inl f \<Rightarrow> Inl f
              | Inr (Exit st) \<Rightarrow> Inr (False, strm (r_bs st), r_rows st)
              | Inr (Next st) \<Rightarrow> Inr (True, strm (r_bs st), r_rows st))))"

subsection \<open>SQLExecute\<close>

definition set_Mrs :: "stream \<Rightarrow> ODBCStmt \<Rightarrow> ODBCStmt" where
  "set_Mrs rs hstmt = hstmt\<lparr>Dbc := (Dbc hstmt)\<lparr>Mrs := rs\<rparr>\<rparr>"

text \<open>
  \<^verbatim>\<open>stream_write(dbc->Mws, query, 1, strlen(query)); stream_write(dbc->Mws, ";\n", 1, 2);
  stream_flush(dbc->Mws)\<close>: \<open>Mws\<close> is all that has been written to the server.
\<close>

definition send_query :: "ODBCStmt \<Rightarrow> string \<Rightarrow> ODBCStmt" where
  "send_query hstmt query =
     hstmt\<lparr>Dbc := (Dbc hstmt)\<lparr>Mws := Mws (Dbc hstmt) @ query @ [CHR '';'', LF]\<rparr>\<rparr>"

text \<open>
  The block \<^verbatim>\<open>if (type == Q_RESULT && status > 0) { ... }\<close>. \<open>Exit\<close> is the
  \<^verbatim>\<open>return status\<close> behind the second \<^verbatim>\<open>next_result\<close>; \<open>Next\<close> carries \<open>status\<close>,
  \<open>type\<close>, \<open>nCols\<close>, the stream and the statement on.
\<close>

definition header_block ::
  "config \<Rightarrow> int \<Rightarrow> int \<Rightarrow> stream \<Rightarrow> ODBCStmt \<Rightarrow>
   fault + ((int \<times> ODBCStmt) + (int \<times> int \<times> int \<times> stream \<times> ODBCStmt))" where
  "header_block cfg status type rs hstmt =
     (if type = Q_RESULT cfg \<and> 0 < status then
        (case stream_readInt rs of
           (ident, rs1) \<Rightarrow>
             (case read_header cfg rs1 (nat status) of
                Inl f \<Rightarrow> Inl f
              | Inr (rs2, cols) \<Rightarrow>
                 (case next_result cfg rs2 (hstmt\<lparr>nrCols := status, ResultCols := Some cols\<rparr>) type of
                    Inl f \<Rightarrow> Inl f
                  | Inr (status', type', rs3, hstmt') \<Rightarrow>
                      if status' = SQL_ERROR then Inr (Inl (status', set_Mrs rs3 hstmt'))
                      else Inr (Inr (status', type', status, rs3, hstmt')))))
      else Inr (Inr (status, type, 0, rs, hstmt)))"

text \<open>
  The rest of the function: \<^verbatim>\<open>if (type == Q_TABLE && status > 0) { ... } else if (Q_UPDATE)
  { ... }\<close>, then \<^verbatim>\<open>hstmt->State = EXECUTED; return SQL_SUCCESS\<close>. The second condition
  tests the constant, not \<open>type\<close>; \<open>nRows\<close> is still 0 there.
\<close>

definition table_block ::
  "config \<Rightarrow> int \<Rightarrow> int \<Rightarrow> int \<Rightarrow> stream \<Rightarrow> ODBCStmt \<Rightarrow> fault + (int \<times> ODBCStmt)" where
  "table_block cfg status type nCols rs hstmt =
     (if type = Q_TABLE cfg \<and> 0 < status then
        (case read_rows cfg rs (nat nCols) (nat status) of
           Inl f \<Rightarrow> Inl f
         | Inr (ok, rs1, rows) \<Rightarrow>
             (let hstmt1 = set_Mrs rs1 (hstmt\<lparr>nrRows := status, ResultRows := Some rows\<rparr>)
              in if ok then Inr (SQL_SUCCESS, hstmt1\<lparr>State := EXECUTED\<rparr>)
                 else Inr (SQL_ERROR, hstmt1)))
      else
        (let hstmt1 = (if Q_UPDATE cfg \<noteq> 0 then hstmt\<lparr>nrRows := 0, ResultRows := None\<rparr>
                       else hstmt)
         in Inr (SQL_SUCCESS, (set_Mrs rs hstmt1)\<lparr>State := EXECUTED\<rparr>)))"

text \<open>
  The part of SQLExecute that reads the reply, from \<^verbatim>\<open>hstmt->nrCols = 0\<close> on. The local
  \<open>type\<close> starts as 0.
\<close>

definition fetch_result :: "config \<Rightarrow> ODBCStmt \<Rightarrow> fault + (int \<times> ODBCStmt)" where
  "fetch_result cfg hstmt =
     (case next_result cfg (Mrs (Dbc hstmt)) (hstmt\<lparr>nrCols := 0, nrRows := 0, currentRow := 0\<rparr>) 0 of
        Inl f \<Rightarrow> Inl f
      | Inr (status, type, rs, hstmt1) \<Rightarrow>
          if status = SQL_ERROR then Inr (status, set_Mrs rs hstmt1)
          else
            (case header_block cfg status type rs hstmt1 of
               Inl f \<Rightarrow> Inl f
             | Inr (Inl r) \<Rightarrow> Inr r
             | Inr (Inr (status', type', nCols, rs', hstmt2)) \<Rightarrow>
                 table_block cfg status' type' nCols rs' hstmt2))"

text \<open>
  \<^verbatim>\<open>SQLExecute(hStmt)\<close>: the value returned and the statement (with its connection's
  streams) as the call leaves it. The three \<^verbatim>\<open>assert\<close>s on the statement are the
  fault \<open>AssertFailed\<close>; the query text and the connection's streams are never null here.
\<close>

definition SQLExecute :: "config \<Rightarrow> ODBCStmt \<Rightarrow> fault + (int \<times> ODBCStmt)" where
  "SQLExecute cfg hstmt =
     (if \<not> valid hstmt then Inr (SQL_INVALID_HANDLE, hstmt)
      else if State (clearStmtErrors hstmt) \<noteq> PREPARED
        then Inr (SQL_ERROR, addStmtError (clearStmtErrors hstmt) ''24000'' None)
      else if ResultCols hstmt = None \<and> ResultRows hstmt = None then
        (case substitute (Query hstmt) (bindParams hstmt) of
           Inl f \<Rightarrow> Inl f
         | Inr query \<Rightarrow> fetch_result cfg (send_query (clearStmtErrors hstmt) query))
      else Inl AssertFailed)"

section \<open>Concrete inputs\<close>

text \<open>
  An instance of the parameters, with four distinct type tags, for the runs on concrete
  inputs below.
\<close>

definition example_cfg :: config where
  "example_cfg = \<lparr>Q_END = 0, Q_RESULT = 1, Q_TABLE = 2, Q_UPDATE = 3, BLOCK = 8190\<rparr>"

text \<open>
  A valid statement handle in state \<open>PREPARED\<close> with no results, on a connection on
  which nothing has been written yet and whose server will send \<open>rs\<close>.
\<close>

definition prepared_stmt :: "string \<Rightarrow> bind_params \<Rightarrow> stream \<Rightarrow> ODBCStmt" where
  "prepared_stmt q bp rs =
     \<lparr>valid = True, State = PREPARED, Query = q, bindParams = bp, errors = [],
      nrCols = 0, nrRows = 0, currentRow = 0, ResultCols = None, ResultRows = None,
      Dbc = \<lparr>Mrs = rs, Mws = []\<rparr>\<rparr>"

definition no_params :: bind_params where
  "no_params = \<lparr>size_bp = 0, array = []\<rparr>"

text \<open>The header payload \<^verbatim>\<open>id,int\nname,char\n\<close>.\<close>

definition header_payload :: string where
  "header_payload = ''id,int'' @ [LF] @ ''name,char'' @ [LF]"

text \<open>A column header as the header block fills it in.\<close>

definition col :: "string \<Rightarrow> string \<Rightarrow> int \<Rightarrow> int \<Rightarrow> ColumnHeader" where
  "col name type tag width =
     \<lparr>pszSQL_DESC_BASE_COLUMN_NAME = Some name, pszSQL_DESC_TYPE_NAME = Some type,
      pszSQL_DESC_LABEL = Some name, pszSQL_DESC_NAME = Some name,
      nSQL_DESC_TYPE = tag, nSQL_DESC_DISPLAY_SIZE = width\<rparr>"

section \<open>Auxiliary predicates\<close>

text \<open>
  \<open>reply_only h h'\<close>: from \<open>h\<close> to \<open>h'\<close> nothing more was written to the server, and
  the errors added are those of \<^verbatim>\<open>next_result\<close>.
\<close>

definition reply_only :: "ODBCStmt \<Rightarrow> ODBCStmt \<Rightarrow> bool" where
  "reply_only h h' \<longleftrightarrow>
     Mws (Dbc h') = Mws (Dbc h) \<and>
     take (length (errors h)) (errors h') = errors h \<and>
     list_all (\<lambda>e. fst e = ''08S01'' \<or> fst e = ''HY000'') (drop (length (errors h)) (errors h'))"




text \<open>
  The invariant of the row loops: \<open>eof\<close> is not set, and the write offset of the
  buffer lies inside its initialised bytes.
\<close>

definition rows_inv :: "rows_state \<Rightarrow> bool" where
  "rows_inv st \<longleftrightarrow> \<not> r_eof st \<and> len (r_bs st) \<le> length (buf (r_bs st))"

text \<open>
  The value the row decoder stores for a field \<open>f\<close> of the payload: \<open>f\<close> without one
  pair of enclosing double quotes, or else without one pair of enclosing single
  quotes, or else \<open>f\<close> itself.
\<close>

definition field_value :: "string \<Rightarrow> string" where
  "field_value f =
     (if f \<noteq> [] \<and> hd f = DQUOTE \<and> last f = DQUOTE then butlast (tl f)
      else if f \<noteq> [] \<and> hd f = SQUOTE \<and> last f = SQUOTE then butlast (tl f)
      else f)"

text \<open>
  A field of a row payload with the byte that ends it: the field holds no tab, no
  newline and no NUL, and the byte behind it is a tab or a newline. \<open>payload_of\<close> is
  the payload such fields make up, in their order.
\<close>

definition cell_ok :: "string \<times> char \<Rightarrow> bool" where
  "cell_ok c \<longleftrightarrow>
     TAB \<notin> set (fst c) \<and> LF \<notin> set (fst c) \<and> NUL \<notin> set (fst c) \<and> (snd c = TAB \<or> snd c = LF)"

definition payload_of :: "(string \<times> char) list \<Rightarrow> string" where
  "payload_of cells = concat (map (\<lambda>c. fst c @ [snd c]) cells)"

text \<open>
  The type table as the specification words it: the eleven type names the server
  reports (for bit, tiny integer, character, short integer, integer, long integer,
  float, double, date, time and timestamp), each with its tag, and the unspecified
  tag 0 for every other name.
\<close>

definition semantic_tag :: "string \<Rightarrow> int" where
  "semantic_tag ty =
     (if ty = ''bit'' then SQL_C_BIT
      else if ty = ''uchr'' then SQL_C_UTINYINT
      else if ty = ''char'' then SQL_C_CHAR
      else if ty = ''sht'' then SQL_C_SSHORT
      else if ty = ''int'' then SQL_C_SLONG
      else if ty = ''lng'' then SQL_C_SBIGINT
      else if ty = ''flt'' then SQL_C_FLOAT
      else if ty = ''dbl'' then SQL_C_DOUBLE
      else if ty = ''date'' then SQL_C_TYPE_DATE
      else if ty = ''time'' then SQL_C_TYPE_TIME
      else if ty = ''timestamp'' then SQL_C_TYPE_TIMESTAMP
      else 0)"

text \<open>
  The invariant of the header loop: every entry of \<^verbatim>\<open>ResultCols\<close> has the tag of its
  type name (0 while it has none), and the entries from \<open>pCol\<close> on are still zero.
\<close>

definition col_ok :: "ColumnHeader \<Rightarrow> bool" where
  "col_ok c \<longleftrightarrow>
     (case pszSQL_DESC_TYPE_NAME c of
        None \<Rightarrow> nSQL_DESC_TYPE c = 0
      | Some ty \<Rightarrow> nSQL_DESC_TYPE c = semantic_tag ty)"

definition cols_inv :: "header_state \<Rightarrow> bool" where
  "cols_inv st \<longleftrightarrow>
     list_all col_ok (h_cols st) \<and>
     list_all (\<lambda>c. c = zero_ColumnHeader) (drop (h_pCol st) (h_cols st))"

section \<open>The statement state check\<close>

text \<open>
  Claim C8. For every statement whose state is not \<open>PREPARED\<close>, SQLExecute fails with
  the invalid-cursor-state error (SQLSTATE 24000, return value \<^verbatim>\<open>SQL_ERROR\<close>) and has no
  side effect on the stream: the connection's read and write streams and the
  statement's result fields are as before. (For a handle that \<^verbatim>\<open>isValidStmt\<close> rejects
  the call returns before that, again without any effect.)
\<close>

theorem C8_not_prepared:
  assumes "State hstmt \<noteq> PREPARED"
  shows "\<exists>r hstmt'. SQLExecute cfg hstmt = Inr (r, hstmt') \<and>
           Dbc hstmt' = Dbc hstmt \<and>
           nrCols hstmt' = nrCols hstmt \<and> nrRows hstmt' = nrRows hstmt \<and>
           currentRow hstmt' = currentRow hstmt \<and>
           ResultCols hstmt' = ResultCols hstmt \<and> ResultRows hstmt' = ResultRows hstmt \<and>
           State hstmt' = State hstmt \<and>
           (valid hstmt \<longrightarrow> r = SQL_ERROR \<and> errors hstmt' = [(''24000'', None)])"
  using assms by (simp add: SQLExecute_def clearStmtErrors_def addStmtError_def)

theorem C8_not_prepared_witness:
  "\<exists>r hstmt'.
      SQLExecute example_cfg
        ((prepared_stmt ''select 1'' no_params [Int_item 3, Int_item 0])\<lparr>State := EXECUTED\<rparr>) =
        Inr (r, hstmt') \<and>
      Dbc hstmt' = \<lparr>Mrs = [Int_item 3, Int_item 0], Mws = []\<rparr> \<and> State hstmt' = EXECUTED \<and>
      ResultCols hstmt' = None \<and> ResultRows hstmt' = None \<and>
      r = SQL_ERROR \<and> errors hstmt' = [(''24000'', None)]"
  using C8_not_prepared
    [of "(prepared_stmt ''select 1'' no_params [Int_item 3, Int_item 0])\<lparr>State := EXECUTED\<rparr>"
        example_cfg]
  by (auto simp: prepared_stmt_def)

section \<open>The frame reader\<close>

text \<open>
  Claim C10. When reading the type integer of the frame header fails, or the type
  read is \<^verbatim>\<open>Q_END\<close>, \<^verbatim>\<open>next_result\<close> records the communication-link-failure error
  (SQLSTATE 08S01) and returns \<^verbatim>\<open>SQL_ERROR\<close> at once: the stream is left right behind
  the type integer (or untouched when that read failed), so neither the status
  integer nor any payload has been read.
\<close>

theorem C10_link_failure:
  "next_result cfg (Int_item (Q_END cfg) # rest) hstmt type =
     Inr (SQL_ERROR, Q_END cfg, rest, addStmtError hstmt ''08S01'' None) \<and>
   (fst (stream_readInt rs) = None \<longrightarrow>
      next_result cfg rs hstmt type = Inr (SQL_ERROR, type, rs, addStmtError hstmt ''08S01'' None))"
  by (cases rs rule: stream_readInt.cases) (simp_all add: next_result_def)

theorem C10_link_failure_witness:
  "fst (stream_readInt [Bytes ''x'', Int_item 5]) = None \<and>
   next_result example_cfg [Bytes ''x'', Int_item 5] (prepared_stmt ''select 1'' no_params []) 0 =
     Inr (SQL_ERROR, 0, [Bytes ''x'', Int_item 5],
          addStmtError (prepared_stmt ''select 1'' no_params []) ''08S01'' None) \<and>
   next_result example_cfg [Int_item 0, Int_item 5, Bytes ''x'']
       (prepared_stmt ''select 1'' no_params []) 0 =
     Inr (SQL_ERROR, 0, [Int_item 5, Bytes ''x''],
          addStmtError (prepared_stmt ''select 1'' no_params []) ''08S01'' None)"
  using C10_link_failure
    [of example_cfg "[Int_item 5, Bytes ''x'']" "prepared_stmt ''select 1'' no_params []" 0
        "[Bytes ''x'', Int_item 5]"]
  by (simp add: example_cfg_def)

text \<open>
  Claim C4, as stated, fails on both of its conditions. A frame whose type tag is none
  of the four known tags but not negative, with a status that is not negative, is
  not treated as an error: \<^verbatim>\<open>next_result\<close> returns its status and leaves the payload in
  the stream. And a frame with the tag \<^verbatim>\<open>Q_END\<close> and a negative status is answered
  before its status is read: the status and the error payload stay in the stream.
\<close>

theorem C4_counterexample:
  "next_result example_cfg
     [Int_item 99, Int_item 5, Block ''unknown frame'' True, Int_item 3, Int_item 0]
     (prepared_stmt ''select 1'' no_params []) 0 =
   Inr (5, 99, [Block ''unknown frame'' True, Int_item 3, Int_item 0],
        prepared_stmt ''select 1'' no_params []) \<and>
   next_result example_cfg
     [Int_item (Q_END example_cfg), Int_item (- 1), Block ''no result'' True,
      Int_item 3, Int_item 0]
     (prepared_stmt ''select 1'' no_params []) 0 =
   Inr (SQL_ERROR, Q_END example_cfg,
        [Int_item (- 1), Block ''no result'' True, Int_item 3, Int_item 0],
        addStmtError (prepared_stmt ''select 1'' no_params []) ''08S01'' None)"
  by (simp add: next_result_def example_cfg_def)

lemma read_while_not_last_blocks:
  "read_while_not_last False (map (\<lambda>b. Block b False) bs @ Block e True # rest) = rest"
proof (induction bs)
  case Nil
  show ?case
    by (subst read_while_not_last.simps, simp, subst read_while_not_last.simps, simp)
next
  case (Cons b bs)
  then show ?case by (subst read_while_not_last.simps) simp
qed

lemma drain_payload:
  "(case bs_read_next (map (\<lambda>b. Block b False) bs @ Block e True # rest) of
      (lastf, rs) \<Rightarrow> read_while_not_last lastf rs) = rest"
proof (cases bs)
  case Nil
  then show ?thesis by (simp add: read_while_not_last.simps)
next
  case (Cons b bs')
  then show ?thesis by (simp add: read_while_not_last_blocks)
qed

text \<open>
  Claim C4, amended. What \<^verbatim>\<open>next_result\<close> does with a frame is decided by its type
  tag first. A frame with the tag \<^verbatim>\<open>Q_END\<close> is answered at once with the link-failure
  error (SQLSTATE 08S01) and \<^verbatim>\<open>SQL_ERROR\<close>, whatever follows the tag: nothing behind the
  tag is read. For every frame with another tag: when the tag or the status is
  negative, \<^verbatim>\<open>next_result\<close> reads the blocks of the error payload up to and including
  the one with the terminal marker, records the general error (SQLSTATE HY000) and
  returns \<^verbatim>\<open>SQL_ERROR\<close>, and the stream is then at the first item behind the payload,
  where the next frame starts; when neither the tag nor the status is negative, the
  frame is not an error, whether the tag is a known one or not: the status is
  returned, no error is recorded and nothing behind the two integers is read.
\<close>

theorem C4_error_payload_drained:
  "(t = Q_END cfg \<longrightarrow>
      next_result cfg (Int_item t # rest) hstmt type =
        Inr (SQL_ERROR, t, rest, addStmtError hstmt ''08S01'' None)) \<and>
   (t \<noteq> Q_END cfg \<and> (t < 0 \<or> status < 0) \<longrightarrow>
      next_result cfg
        (Int_item t # Int_item status # map (\<lambda>b. Block b False) bs @ Block e True # rest)
        hstmt type =
        Inr (SQL_ERROR, t, rest,
             addStmtError hstmt ''HY000'' (Some ''No result available (status < 0)''))) \<and>
   (t \<noteq> Q_END cfg \<and> 0 \<le> t \<and> 0 \<le> status \<longrightarrow>
      next_result cfg (Int_item t # Int_item status # rest) hstmt type =
        Inr (status, t, rest, hstmt))"
  using drain_payload [of bs e rest]
  by (auto simp: next_result_def split: prod.splits)

theorem C4_error_payload_drained_witness:
  "next_result example_cfg
     (Int_item 1 # Int_item (- 1) #
        map (\<lambda>b. Block b False) [''!ERROR: ''] @ Block ''no such table'' True #
        [Int_item 3, Int_item 0])
     (prepared_stmt ''select 1'' no_params []) 0 =
     Inr (SQL_ERROR, 1, [Int_item 3, Int_item 0],
          addStmtError (prepared_stmt ''select 1'' no_params []) ''HY000''
            (Some ''No result available (status < 0)'')) \<and>
   next_result example_cfg (Int_item 3 # Int_item 0 # [])
     (addStmtError (prepared_stmt ''select 1'' no_params []) ''HY000''
        (Some ''No result available (status < 0)'')) 1 =
     Inr (0, 3, [],
          addStmtError (prepared_stmt ''select 1'' no_params []) ''HY000''
            (Some ''No result available (status < 0)'')) \<and>
   next_result example_cfg (Int_item 0 # [Int_item 5, Block ''x'' True])
     (prepared_stmt ''select 1'' no_params []) 0 =
     Inr (SQL_ERROR, 0, [Int_item 5, Block ''x'' True],
          addStmtError (prepared_stmt ''select 1'' no_params []) ''08S01'' None)"
  using C4_error_payload_drained
    [where t = 1 and cfg = example_cfg and status = "- 1" and bs = "[''!ERROR: '']"
       and e = "''no such table''" and rest = "[Int_item 3, Int_item 0]"
       and hstmt = "prepared_stmt ''select 1'' no_params []" and type = 0]
    C4_error_payload_drained
    [where t = 3 and cfg = example_cfg and status = 0 and rest = "[]"
       and hstmt = "addStmtError (prepared_stmt ''select 1'' no_params []) ''HY000''
                      (Some ''No result available (status < 0)'')" and type = 1]
    C4_error_payload_drained
    [where t = 0 and cfg = example_cfg and rest = "[Int_item 5, Block ''x'' True]"
       and hstmt = "prepared_stmt ''select 1'' no_params []" and type = 0]
  by (simp add: example_cfg_def)

section \<open>Parameter substitution\<close>






lemma reply_only_upd [simp]:
  "reply_only h (set_Mrs rs h')  = reply_only h h'"
  "reply_only (set_Mrs rs h) h' = reply_only h h'"
  "reply_only h (h'\<lparr>State := s\<rparr>) = reply_only h h'"
  "reply_only h (h'\<lparr>nrRows := n\<rparr>) = reply_only h h'"
  "reply_only h (h'\<lparr>nrCols := n\<rparr>) = reply_only h h'"
  "reply_only h (h'\<lparr>currentRow := n\<rparr>) = reply_only h h'"
  "reply_only h (h'\<lparr>ResultRows := rr\<rparr>) = reply_only h h'"
  "reply_only h (h'\<lparr>ResultCols := rc\<rparr>) = reply_only h h'"
  "reply_only (h\<lparr>nrRows := n\<rparr>) h' = reply_only h h'"
  "reply_only (h\<lparr>nrCols := n\<rparr>) h' = reply_only h h'"
  "reply_only (h\<lparr>currentRow := n\<rparr>) h' = reply_only h h'"
  "reply_only (h\<lparr>ResultRows := rr\<rparr>) h' = reply_only h h'"
  "reply_only (h\<lparr>ResultCols := rc\<rparr>) h' = reply_only h h'"
  by (simp_all add: reply_only_def set_Mrs_def)
















text \<open>
  Claim C3 does not hold of the code. The substitution loop prints, behind every
  marker it has replaced, the whole rest of the template, and then scans that rest
  again: with the two bound values \<^verbatim>\<open>a\<close> and \<^verbatim>\<open>b\<close> the template \<^verbatim>\<open>??\<close> becomes
  \<^verbatim>\<open>'a'?'b'\<close>, with a marker left in it, and not \<^verbatim>\<open>'a''b'\<close>. (The run below has
  \<open>size = 3\<close>; with \<open>size = 2\<close> the conversion loop stores behind the block of
  \<^verbatim>\<open>strings\<close>. A value with a quote in it makes \<^verbatim>\<open>convert\<close> write behind its block.)
\<close>

theorem C3_marker_left_in_query:
  "SQLExecute example_cfg
     (prepared_stmt ''??'' \<lparr>size_bp = 3, array = [None, Some ''a'', Some ''b'']\<rparr>
        [Int_item 3, Int_item 0]) =
   Inr (SQL_SUCCESS,
        (prepared_stmt ''??'' \<lparr>size_bp = 3, array = [None, Some ''a'', Some ''b'']\<rparr> [])
        \<lparr>State := EXECUTED,
          Dbc := \<lparr>Mrs = [],
                   Mws = [SQUOTE] @ ''a'' @ [SQUOTE] @ ''?'' @ [SQUOTE] @ ''b'' @ [SQUOTE] @
                         [CHR '';'', LF]\<rparr>\<rparr>) \<and>
   substitute ''a?b'' \<lparr>size_bp = 2, array = [None, Some ''p'']\<rparr> =
     Inr (''a'' @ [SQUOTE] @ ''p'' @ [SQUOTE] @ ''bb'') \<and>
   substitute ''??'' \<lparr>size_bp = 2, array = [None, Some ''a'', Some ''b'']\<rparr> = Inl OutOfBounds \<and>
   convert (''it'' @ [SQUOTE] @ ''s'') = Inl OutOfBounds"
  by code_simp

section \<open>The header decoder\<close>

lemma fill_create:
  "c \<noteq> [] \<Longrightarrow> length c \<le> n \<Longrightarrow>
     fill (bstream_create (Bytes c # rs) n) =
       (False, \<lparr>strm = rs, buf = c @ [NUL], pos = 0, len = length c, size_bs = n\<rparr>)"
  by (simp add: fill_def bstream_create_def bstream_read_def)

lemma header_loop_example:
  "(case header_loop \<lparr>h_bs = \<lparr>strm = rs, buf = header_payload @ [NUL], pos = 0,
                              len = length header_payload, size_bs = n\<rparr>,
                      h_sc = 0, h_eof = False,
                      h_cols = replicate (2 + 1) zero_ColumnHeader, h_pCol = 1\<rparr> of
      Inl f \<Rightarrow> Inl f
    | Inr st \<Rightarrow> Inr (strm (h_bs st), h_cols st)) =
   Inr (rs, [zero_ColumnHeader, col ''id'' ''int'' SQL_C_SLONG 4, col ''name'' ''char'' SQL_C_CHAR 6])"
  by code_simp

text \<open>
  Claim C5. For the header payload \<^verbatim>\<open>id,int\nname,char\n\<close> with \<open>nCols = 2\<close>, delivered
  in one read, the header block stores exactly two column headers, in order, behind
  the unused entry 0: the first named \<^verbatim>\<open>id\<close> with type name \<^verbatim>\<open>int\<close>, type
  \<^verbatim>\<open>SQL_C_SLONG\<close> and display size 4, the second named \<^verbatim>\<open>name\<close> with type name
  \<^verbatim>\<open>char\<close>, type \<^verbatim>\<open>SQL_C_CHAR\<close> and display size 6 (the length of the name plus 2).
\<close>

theorem C5_header_scenario:
  assumes "length header_payload \<le> BLOCK cfg"
  shows "read_header cfg (Bytes header_payload # rs) 2 =
     Inr (rs, [zero_ColumnHeader, col ''id'' ''int'' SQL_C_SLONG 4, col ''name'' ''char'' SQL_C_CHAR 6])"
proof -
  have "header_payload \<noteq> []" by (simp add: header_payload_def)
  from fill_create [OF this assms, of rs] header_loop_example [of rs "BLOCK cfg"]
  show ?thesis by (simp add: read_header_def INT_MAX_def)
qed

theorem C5_header_scenario_witness:
  "length header_payload \<le> BLOCK example_cfg \<and>
   read_header example_cfg (Bytes header_payload # [Int_item 2, Int_item 1]) 2 =
     Inr ([Int_item 2, Int_item 1],
          [zero_ColumnHeader, col ''id'' ''int'' SQL_C_SLONG 4, col ''name'' ''char'' SQL_C_CHAR 6])"
  using C5_header_scenario [of example_cfg "[Int_item 2, Int_item 1]"]
  by (simp add: example_cfg_def header_payload_def)

lemma cols_inv_iff:
  "cols_inv st \<longleftrightarrow>
     list_all col_ok (h_cols st) \<and>
     (\<forall>i. h_pCol st \<le> i \<and> i < length (h_cols st) \<longrightarrow> h_cols st ! i = zero_ColumnHeader)"
proof -
  have "list_all (\<lambda>c. c = zero_ColumnHeader) (drop p xs) \<longleftrightarrow>
          (\<forall>i. p \<le> i \<and> i < length xs \<longrightarrow> xs ! i = zero_ColumnHeader)" for p xs
  proof
    assume a: "list_all (\<lambda>c. c = zero_ColumnHeader) (drop p xs)"
    show "\<forall>i. p \<le> i \<and> i < length xs \<longrightarrow> xs ! i = zero_ColumnHeader"
    proof (intro allI impI)
      fix i assume i: "p \<le> i \<and> i < length xs"
      then have "i - p < length (drop p xs)" by auto
      with a have "drop p xs ! (i - p) = zero_ColumnHeader" by (simp add: list_all_length)
      with i show "xs ! i = zero_ColumnHeader" by simp
    qed
  next
    assume "\<forall>i. p \<le> i \<and> i < length xs \<longrightarrow> xs ! i = zero_ColumnHeader"
    then show "list_all (\<lambda>c. c = zero_ColumnHeader) (drop p xs)"
      by (simp add: list_all_length)
  qed
  then show ?thesis by (simp add: cols_inv_def)
qed

lemma find_sql_type_semantic_tag:
  "(case find_sql_type sql_types ty of Some t \<Rightarrow> t | None \<Rightarrow> 0) = semantic_tag ty"
  by (simp add: sql_types_def semantic_tag_def)

lemma list_all_update:
  "list_all P xs \<Longrightarrow> P x \<Longrightarrow> list_all P (xs[i := x])"
  by (induction xs arbitrary: i) (auto split: nat.splits)

lemma header_record_cols_inv:
  assumes "header_record st bs eof sc s name = Inr (Next st')" and "cols_inv st"
  shows "cols_inv st'"
proof -
  let ?p = "h_pCol st"
  let ?ty = "strdup_at ((buf bs)[sc := NUL]) s"
  from assms(1) have lt: "?p < length (h_cols st)"
    by (auto simp: header_record_def Let_def split: if_splits)
  from assms(2) lt have z: "h_cols st ! ?p = zero_ColumnHeader"
    by (simp add: cols_inv_iff)
  define c' where "c' = (h_cols st ! ?p)\<lparr>nSQL_DESC_TYPE :=
                         (case find_sql_type sql_types ?ty of
                            Some t \<Rightarrow> t
                          | None \<Rightarrow> nSQL_DESC_TYPE (h_cols st ! ?p)),
                       pszSQL_DESC_BASE_COLUMN_NAME := Some name,
                       pszSQL_DESC_TYPE_NAME := Some ?ty,
                       pszSQL_DESC_LABEL := Some name,
                       pszSQL_DESC_NAME := Some name,
                       nSQL_DESC_DISPLAY_SIZE := int (length name) + 2\<rparr>"
  from assms(1) lt have st': "h_cols st' = (h_cols st)[?p := c']" "h_pCol st' = ?p + 1"
    by (auto simp: header_record_def Let_def c'_def)
  from z have n0: "nSQL_DESC_TYPE (h_cols st ! ?p) = 0"
    by (simp add: zero_ColumnHeader_def)
  have "nSQL_DESC_TYPE c' = semantic_tag ?ty"
    using find_sql_type_semantic_tag [of ?ty]
    by (auto simp: c'_def n0 split: option.splits)
  then have ok: "col_ok c'" by (simp add: col_ok_def c'_def)
  with assms(2) show ?thesis
    by (simp add: cols_inv_iff st' list_all_update)
qed

lemma header_record_not_Exit:
  "header_record st bs eof sc s name \<noteq> Inr (Exit st')"
  by (simp add: header_record_def Let_def)

lemma header_step_cols_inv:
  assumes "header_step st = Inr r" and "cols_inv st"
  shows "case r of Next st' \<Rightarrow> cols_inv st' | Exit st' \<Rightarrow> cols_inv st'"
proof -
  have upd: "cols_inv (st\<lparr>h_bs := b, h_eof := e, h_sc := n\<rparr>)" for b e n
    using assms(2) by (simp add: cols_inv_iff)
  have upd2: "cols_inv (st\<lparr>h_bs := b, h_sc := n\<rparr>)" for b n
    using assms(2) by (simp add: cols_inv_iff)
  from assms show ?thesis
    by (auto simp: header_step_def Let_def upd upd2 header_record_not_Exit
             split: if_splits prod.splits flow.splits
             dest: header_record_cols_inv)
qed

lemma header_loop_cols_inv:
  assumes "header_loop st = Inr st'" and "cols_inv st"
  shows "cols_inv st'"
  using assms
proof (induction st rule: header_loop.induct)
  case (1 st)
  show ?case
  proof (cases "h_sc st < len (h_bs st)")
    case False
    with "1.prems" show ?thesis by (subst (asm) header_loop.simps) simp
  next
    case True
    with "1.prems"(1) obtain r where r: "header_step st = Inr r"
      by (subst (asm) header_loop.simps) (auto split: sum.splits)
    show ?thesis
    proof (cases r)
      case (Next st1)
      with r True "1.prems"(1) have "header_loop st1 = Inr st'"
        by (subst (asm) header_loop.simps) simp
      moreover from header_step_cols_inv [OF r "1.prems"(2)] Next have "cols_inv st1" by simp
      ultimately show ?thesis using "1.IH" [OF True r Next] by simp
    next
      case (Exit st1)
      with r True "1.prems"(1) have "st' = st1"
        by (subst (asm) header_loop.simps) simp
      with header_step_cols_inv [OF r "1.prems"(2)] Exit show ?thesis by simp
    qed
  qed
qed

lemma read_header_tags:
  assumes "read_header cfg rs nCols = Inr (rs', cols)"
  shows "list_all col_ok cols"
proof -
  obtain eof bs where f: "fill (bstream_create rs (BLOCK cfg)) = (eof, bs)" by force
  let ?st = "\<lparr>h_bs = bs, h_sc = pos bs, h_eof = eof,
               h_cols = replicate (nCols + 1) zero_ColumnHeader, h_pCol = 1\<rparr>"
  from assms f obtain st' where l: "header_loop ?st = Inr st'" and c: "cols = h_cols st'"
    by (auto simp: read_header_def split: sum.splits if_splits)
  have "col_ok zero_ColumnHeader"
    by (simp add: col_ok_def zero_ColumnHeader_def)
  then have "cols_inv ?st"
    by (auto simp: cols_inv_iff list_all_iff nth_Cons')
  from header_loop_cols_inv [OF l this] c show ?thesis
    by (simp add: cols_inv_iff)
qed

lemma scan_until_found:
  assumes "\<forall>j. sc \<le> j \<and> j < k \<longrightarrow> \<not> stop (mem ! j)" and "stop (mem ! k)"
    and "sc \<le> k" and "k < ec"
  shows "scan_until stop mem sc ec = k"
  using assms
proof (induction stop mem sc ec rule: scan_until.induct)
  case (1 stop mem sc ec)
  show ?case
  proof (cases "sc = k")
    case True
    with "1.prems" show ?thesis by (subst scan_until.simps) simp
  next
    case False
    with "1.prems" have a: "sc < ec \<and> \<not> stop (mem ! sc)" by auto
    then have "scan_until stop mem sc ec = scan_until stop mem (Suc sc) ec"
      by (subst scan_until.simps) simp
    also have "\<dots> = k"
      using "1.IH" [OF a] "1.prems" False by auto
    finally show ?thesis .
  qed
qed

lemma scan_until_field:
  assumes "\<forall>x \<in> set xs. \<not> stop x" and "stop c" and "length pre + length xs < ec"
  shows "scan_until stop (pre @ xs @ c # ys) (length pre) ec = length pre + length xs"
proof (rule scan_until_found)
  show "\<forall>j. length pre \<le> j \<and> j < length pre + length xs \<longrightarrow> \<not> stop ((pre @ xs @ c # ys) ! j)"
    using assms(1) by (auto simp: nth_append)
  show "stop ((pre @ xs @ c # ys) ! (length pre + length xs))"
    using assms(2) by (simp add: nth_append)
qed (use assms in auto)

lemma strdup_at_field:
  assumes "NUL \<notin> set xs"
  shows "strdup_at (pre @ xs @ NUL # ys) (length pre) = xs"
  using assms by (auto simp: strdup_at_def takeWhile_tail)

lemma header_step_one_record:
  assumes "CHR '','' \<notin> set name" and "NUL \<notin> set name" and "LF \<notin> set ty" and "NUL \<notin> set ty"
  shows "header_step
           \<lparr>h_bs = \<lparr>strm = rs, buf = name @ CHR '','' # ty @ [LF, NUL], pos = 0,
                     len = Suc (Suc (length name + length ty)), size_bs = n\<rparr>,
            h_sc = 0, h_eof = False, h_cols = cols, h_pCol = p\<rparr> =
         header_record
           \<lparr>h_bs = \<lparr>strm = rs, buf = name @ CHR '','' # ty @ [LF, NUL], pos = 0,
                     len = Suc (Suc (length name + length ty)), size_bs = n\<rparr>,
            h_sc = 0, h_eof = False, h_cols = cols, h_pCol = p\<rparr>
           \<lparr>strm = rs, buf = name @ NUL # ty @ [LF, NUL], pos = 0,
              len = Suc (Suc (length name + length ty)), size_bs = n\<rparr>
           False (Suc (length name + length ty)) (Suc (length name)) name"
proof -
  let ?len = "Suc (Suc (length name + length ty))"
  let ?mem = "name @ CHR '','' # ty @ [LF, NUL]"
  have s1: "scan_until (\<lambda>c. c = CHR '','') ?mem 0 ?len = length name"
    using scan_until_field [of name "\<lambda>c. c = CHR '',''" "CHR '',''" "[]" ?len "ty @ [LF, NUL]"] assms(1)
    by auto
  have m1: "?mem[length name := NUL] = name @ NUL # ty @ [LF, NUL]"
    by (simp add: list_update_append)
  have sd: "strdup_at (name @ NUL # ty @ [LF, NUL]) 0 = name"
    using strdup_at_field [of name "[]" "ty @ [LF, NUL]"] assms(2) by simp
  have s2: "scan_until (\<lambda>c. c = LF) (name @ NUL # ty @ [LF, NUL]) (Suc (length name)) ?len =
              Suc (length name + length ty)"
    using scan_until_field [of ty "\<lambda>c. c = LF" LF "name @ [NUL]" ?len "[NUL]"] assms(3)
    by auto
  show ?thesis
    by (simp add: header_step_def Let_def s1 m1 sd s2)
qed

lemma header_record_one_record:
  assumes "LF \<notin> set ty" and "NUL \<notin> set ty"
  shows "header_record
           \<lparr>h_bs = bs0, h_sc = 0, h_eof = False,
              h_cols = [zero_ColumnHeader, zero_ColumnHeader], h_pCol = Suc 0\<rparr>
           \<lparr>strm = rs, buf = name @ NUL # ty @ [LF, NUL], pos = 0,
              len = Suc (Suc (length name + length ty)), size_bs = n\<rparr>
           False (Suc (length name + length ty)) (Suc (length name)) name =
         Inr (Next
           \<lparr>h_bs = \<lparr>strm = rs, buf = name @ NUL # ty @ [NUL, NUL], pos = 0,
                     len = Suc (Suc (length name + length ty)), size_bs = n\<rparr>,
            h_sc = Suc (Suc (length name + length ty)), h_eof = False,
            h_cols = [zero_ColumnHeader,
                      \<lparr>pszSQL_DESC_BASE_COLUMN_NAME = Some name, pszSQL_DESC_TYPE_NAME = Some ty,
                       pszSQL_DESC_LABEL = Some name, pszSQL_DESC_NAME = Some name,
                       nSQL_DESC_TYPE = (case find_sql_type sql_types ty of Some t \<Rightarrow> t | None \<Rightarrow> 0),
                       nSQL_DESC_DISPLAY_SIZE = int (length name) + 2\<rparr>],
            h_pCol = 2\<rparr>)"
proof -
  have m2: "(name @ NUL # ty @ [LF, NUL])[Suc (length name + length ty) := NUL] =
              name @ NUL # ty @ [NUL, NUL]"
    by (simp add: list_update_append)
  have sd: "strdup_at (name @ NUL # ty @ [NUL, NUL]) (Suc (length name)) = ty"
    using strdup_at_field [of ty "name @ [NUL]" "[NUL]"] assms(2) by simp
  show ?thesis
    by (simp add: header_record_def Let_def m2 sd zero_ColumnHeader_def split: option.splits)
qed


lemma read_header_one_record:
  assumes "CHR '','' \<notin> set name" and "NUL \<notin> set name" and "LF \<notin> set ty" and "NUL \<notin> set ty"
    and "length name + length ty + 2 \<le> BLOCK cfg"
  shows "read_header cfg (Bytes (name @ '','' @ ty @ [LF]) # rs) 1 =
           Inr (rs, [zero_ColumnHeader,
                     \<lparr>pszSQL_DESC_BASE_COLUMN_NAME = Some name, pszSQL_DESC_TYPE_NAME = Some ty,
                      pszSQL_DESC_LABEL = Some name, pszSQL_DESC_NAME = Some name,
                      nSQL_DESC_TYPE = (case find_sql_type sql_types ty of Some t \<Rightarrow> t | None \<Rightarrow> 0),
                      nSQL_DESC_DISPLAY_SIZE = int (length name) + 2\<rparr>])"
proof -
  let ?c = "name @ CHR '','' # ty @ [LF]"
  let ?bs = "\<lparr>strm = rs, buf = name @ CHR '','' # ty @ [LF, NUL], pos = 0,
               len = Suc (Suc (length name + length ty)), size_bs = BLOCK cfg\<rparr>"
  let ?st = "\<lparr>h_bs = ?bs, h_sc = 0, h_eof = False,
               h_cols = [zero_ColumnHeader, zero_ColumnHeader], h_pCol = Suc 0\<rparr>"
  have f: "fill (bstream_create (Bytes ?c # rs) (BLOCK cfg)) = (False, ?bs)"
    using fill_create [of ?c "BLOCK cfg" rs] assms(5) by simp
  have step: "header_step ?st = Inr (Next
           \<lparr>h_bs = \<lparr>strm = rs, buf = name @ NUL # ty @ [NUL, NUL], pos = 0,
                     len = Suc (Suc (length name + length ty)), size_bs = BLOCK cfg\<rparr>,
            h_sc = Suc (Suc (length name + length ty)), h_eof = False,
            h_cols = [zero_ColumnHeader,
                      \<lparr>pszSQL_DESC_BASE_COLUMN_NAME = Some name, pszSQL_DESC_TYPE_NAME = Some ty,
                       pszSQL_DESC_LABEL = Some name, pszSQL_DESC_NAME = Some name,
                       nSQL_DESC_TYPE = (case find_sql_type sql_types ty of Some t \<Rightarrow> t | None \<Rightarrow> 0),
                       nSQL_DESC_DISPLAY_SIZE = int (length name) + 2\<rparr>],
            h_pCol = 2\<rparr>)" (is "_ = Inr (Next ?st')")
    using header_step_one_record [OF assms(1-4)] header_record_one_record [OF assms(3,4)]
    by simp
  have "header_loop ?st = header_loop ?st'"
    by (subst header_loop.simps) (simp add: step)
  also have "\<dots> = Inr ?st'"
    by (subst header_loop.simps) simp
  finally show ?thesis
    by (simp add: read_header_def f INT_MAX_def)
qed

text \<open>
  Claim C7. For every column that the header decoder stores, the tag is the one the
  table gives for the column's raw type name when that is one of the eleven names,
  and the unspecified tag 0 for every other name. An unknown type name does not make
  the decoder fail: a header \<^verbatim>\<open>name,type\n\<close> with any type name decodes to its column.
\<close>

theorem C7_type_tags:
  "(read_header cfg rs nCols = Inr (rs', cols) \<and> c \<in> set cols \<and>
      pszSQL_DESC_TYPE_NAME c = Some ty \<longrightarrow>
        nSQL_DESC_TYPE c = semantic_tag ty) \<and>
   (CHR '','' \<notin> set name \<and> NUL \<notin> set name \<and> LF \<notin> set ty' \<and> NUL \<notin> set ty' \<and>
      length name + length ty' + 2 \<le> BLOCK cfg \<longrightarrow>
        read_header cfg (Bytes (name @ '','' @ ty' @ [LF]) # rs) 1 =
          Inr (rs, [zero_ColumnHeader,
                    col name ty' (semantic_tag ty') (int (length name) + 2)]))"
proof (intro conjI impI)
  assume a: "read_header cfg rs nCols = Inr (rs', cols) \<and> c \<in> set cols \<and>
      pszSQL_DESC_TYPE_NAME c = Some ty"
  then have "list_all col_ok cols" by (auto dest: read_header_tags)
  with a have "col_ok c" by (simp add: list_all_iff)
  with a show "nSQL_DESC_TYPE c = semantic_tag ty" by (simp add: col_ok_def)
next
  assume "CHR '','' \<notin> set name \<and> NUL \<notin> set name \<and> LF \<notin> set ty' \<and> NUL \<notin> set ty' \<and>
      length name + length ty' + 2 \<le> BLOCK cfg"
  then show "read_header cfg (Bytes (name @ '','' @ ty' @ [LF]) # rs) 1 =
          Inr (rs, [zero_ColumnHeader,
                    col name ty' (semantic_tag ty') (int (length name) + 2)])"
    using read_header_one_record [of name ty' cfg rs] find_sql_type_semantic_tag [of ty']
    by (simp add: col_def)
qed

theorem C7_type_tags_witness:
  "read_header example_cfg [Bytes header_payload] 2 =
     Inr ([], [zero_ColumnHeader, col ''id'' ''int'' SQL_C_SLONG 4,
               col ''name'' ''char'' SQL_C_CHAR 6]) \<and>
   nSQL_DESC_TYPE (col ''id'' ''int'' SQL_C_SLONG 4) = semantic_tag ''int'' \<and>
   semantic_tag ''int'' = SQL_C_SLONG \<and>
   read_header example_cfg (Bytes (''pic'' @ '','' @ ''blob'' @ [LF]) # []) 1 =
     Inr ([], [zero_ColumnHeader, col ''pic'' ''blob'' 0 5]) \<and>
   semantic_tag ''blob'' = 0"
proof -
  let ?cols = "[zero_ColumnHeader, col ''id'' ''int'' SQL_C_SLONG 4,
                col ''name'' ''char'' SQL_C_CHAR 6]"
  have run: "read_header example_cfg [Bytes header_payload] 2 = Inr ([], ?cols)"
    by code_simp
  have tag: "semantic_tag ''int'' = SQL_C_SLONG" "semantic_tag ''blob'' = 0"
    by (simp_all add: semantic_tag_def)
  from C7_type_tags
    [where cfg = example_cfg and rs = "[Bytes header_payload]" and nCols = 2 and rs' = "[]"
       and cols = ?cols and c = "col ''id'' ''int'' SQL_C_SLONG 4" and ty = "''int''"
       and name = "''x''" and ty' = "''y''"]
    C7_type_tags
    [where cfg = example_cfg and rs = "[]" and name = "''pic''" and ty' = "''blob''"
       and nCols = 0 and rs' = "[]" and cols = "[]" and c = zero_ColumnHeader and ty = "[]"]
    run tag
  show ?thesis
    by (simp add: col_def example_cfg_def)
qed

text \<open>
  Claim C6 does not hold of the code. The loop of the header block ends as soon as
  the scan pointer reaches the end of the buffered bytes, and it asks for no refill
  there: when the two records of \<^verbatim>\<open>id,int\nname,char\n\<close> arrive in two reads, split
  between the records, only the first column header is stored and the second record
  stays in the stream, while the same payload in one read gives both.
\<close>

theorem C6_split_between_records:
  "read_header example_cfg [Bytes (''id,int'' @ [LF] @ ''name,char'' @ [LF])] 2 =
     Inr ([], [zero_ColumnHeader, col ''id'' ''int'' SQL_C_SLONG 4,
               col ''name'' ''char'' SQL_C_CHAR 6]) \<and>
   read_header example_cfg [Bytes (''id,int'' @ [LF]), Bytes (''name,char'' @ [LF])] 2 =
     Inr ([Bytes (''name,char'' @ [LF])],
          [zero_ColumnHeader, col ''id'' ''int'' SQL_C_SLONG 4, zero_ColumnHeader])"
  by code_simp

section \<open>The row decoder\<close>

text \<open>
  Claim C1 does not hold of the code. When the stream is at its end right behind a
  table frame that announces two rows, the first read sets \<open>eof\<close>, both loops are
  skipped, and SQLExecute returns \<^verbatim>\<open>SQL_SUCCESS\<close> in state \<open>EXECUTED\<close> with
  \<open>nrRows = 2\<close> and not one field stored.
\<close>

theorem C1_no_rows_reported_as_success:
  "SQLExecute example_cfg
     (prepared_stmt ''select * from t'' no_params
        [Int_item (Q_RESULT example_cfg), Int_item 2, Int_item 7, Bytes header_payload,
         Int_item (Q_TABLE example_cfg), Int_item 2]) =
   Inr (SQL_SUCCESS,
        (prepared_stmt ''select * from t'' no_params [])
        \<lparr>State := EXECUTED, nrCols := 2, nrRows := 2,
          ResultCols := Some [zero_ColumnHeader, col ''id'' ''int'' SQL_C_SLONG 4,
                              col ''name'' ''char'' SQL_C_CHAR 6],
          ResultRows := Some (replicate 9 None),
          Dbc := \<lparr>Mrs = [], Mws = ''select * from t;'' @ [LF]\<rparr>\<rparr>)"
  by code_simp

text \<open>
  Claim C9, as stated, fails: the row decoder ends a field at a tab or at a newline
  alike and never looks at which of the two it was. The payload \<^verbatim>\<open>a\tb\tc\nd\n\<close> with
  \<open>nCols = 2\<close> and \<open>nRows = 2\<close> has a first row of three fields and a second of one;
  no row is rejected, the four fields fill the grid in the order they arrive.
\<close>

theorem C9_counterexample:
  "read_rows example_cfg [Bytes (''a'' @ [TAB] @ ''b'' @ [TAB] @ ''c'' @ [LF] @ ''d'' @ [LF])] 2 2 =
     Inr (True, [], [None, None, None, Some ''a'', Some ''b'', Some ''c'', Some ''d'', None, None])"
  by code_simp

lemma scan_until_none:
  "ec \<le> scan_until stop mem sc ec \<longleftrightarrow> (\<forall>j. sc \<le> j \<and> j < ec \<longrightarrow> \<not> stop (mem ! j))"
proof (induction stop mem sc ec rule: scan_until.induct)
  case (1 stop mem sc ec)
  show ?case
  proof (cases "sc < ec \<and> \<not> stop (mem ! sc)")
    case True
    then have "scan_until stop mem sc ec = scan_until stop mem (Suc sc) ec"
      by (subst scan_until.simps) simp
    moreover have "(\<forall>j. sc \<le> j \<and> j < ec \<longrightarrow> \<not> stop (mem ! j)) \<longleftrightarrow>
                   (\<forall>j. Suc sc \<le> j \<and> j < ec \<longrightarrow> \<not> stop (mem ! j))"
      using True by (metis Suc_leI le_eq_less_or_eq Suc_leD)
    ultimately show ?thesis using "1.IH" [OF True] by simp
  next
    case False
    then have "scan_until stop mem sc ec = sc"
      by (subst scan_until.simps) auto
    with False show ?thesis by auto
  qed
qed

lemma fill_len:
  assumes "fill bs = (eof, bs')" and "len bs \<le> length (buf bs)"
  shows "len bs' \<le> length (buf bs') \<and> pos bs' = 0"
  using assms
  by (auto simp: fill_def bstream_read_def Let_def split: prod.splits if_splits)

lemma refill_len:
  assumes "refill bs s = (eof, bs')" and "len bs \<le> length (buf bs)"
  shows "len bs' \<le> length (buf bs') \<and> pos bs' = 0"
  using assms unfolding refill_def by (auto dest: fill_len)

lemma refill_eof_window:
  assumes "refill bs s = (True, bs')" and "len bs \<le> length (buf bs)"
  shows "len bs' = len bs - s \<and> (\<forall>j < len bs - s. buf bs' ! j = buf bs ! (s + j))"
proof -
  from assms(1) have d: "fst (stream_read (strm bs) (min (size_bs bs - (len bs - s)) (size_bs bs - (len bs - s)))) = []"
    by (auto simp: refill_def fill_def bstream_read_def Let_def split: prod.splits)
  with assms(1) have b: "buf bs' = (if 0 < s then take (len bs - s + 1) (drop s (buf bs)) @ drop (len bs - s + 1) (buf bs) else buf bs)"
    and l: "len bs' = len bs - s"
    by (auto simp: refill_def fill_def bstream_read_def Let_def split: prod.splits)
  have "buf bs' ! j = buf bs ! (s + j)" if "j < len bs - s" for j
    using that b assms(2) by (auto simp: nth_append)
  with l show ?thesis by simp
qed

lemma scan_until_refill_eof:
  assumes "refill bs s = (True, bs')" and "len bs \<le> length (buf bs)"
    and "len bs \<le> scan_until stop (buf bs) s (len bs)"
  shows "len bs' \<le> scan_until stop (buf bs') (pos bs') (len bs')"
proof -
  from refill_eof_window [OF assms(1,2)] refill_len [OF assms(1,2)]
  have w: "len bs' = len bs - s" "\<And>j. j < len bs - s \<Longrightarrow> buf bs' ! j = buf bs ! (s + j)" "pos bs' = 0"
    by auto
  from assms(3) have "\<forall>j. s \<le> j \<and> j < len bs \<longrightarrow> \<not> stop (buf bs ! j)"
    by (simp add: scan_until_none)
  then have "\<forall>j. j < len bs - s \<longrightarrow> \<not> stop (buf bs' ! j)"
    using w(2) by (auto simp: less_diff_conv)
  then show ?thesis
    by (simp add: scan_until_none w)
qed

lemma unquote_length:
  "unquote q mem s sc = Inr (mem', s') \<Longrightarrow> length mem' = length mem"
  by (auto simp: unquote_def split: if_splits)

lemma store_field_Inr:
  assumes "store_field nCols nRow nCol st bs eof s sc = Inr st'"
  shows "r_eof st' = eof \<and> len (r_bs st') = len bs \<and> length (buf (r_bs st')) = length (buf bs) \<and>
         nRow * nCols + nCol < length (r_rows st) \<and>
         (\<exists>v. r_rows st' = (r_rows st)[nRow * nCols + nCol := Some v])"
  using assms
  by (auto simp: store_field_def split: sum.splits prod.splits if_splits dest!: unquote_length)

lemma row_field_Next:
  assumes "row_field nCols nRow nCol st = Inr (Next st')" and "rows_inv st"
  shows "rows_inv st' \<and> nRow * nCols + nCol < length (r_rows st) \<and>
         (\<exists>v. r_rows st' = (r_rows st)[nRow * nCols + nCol := Some v])"
proof -
  let ?bs = "r_bs st"
  let ?stop = "\<lambda>c. c = TAB \<or> c = LF"
  let ?sc = "scan_until ?stop (buf ?bs) (r_sc st) (len ?bs)"
  from assms(2) have ne: "\<not> r_eof st" and le: "len ?bs \<le> length (buf ?bs)"
    by (simp_all add: rows_inv_def)
  show ?thesis
  proof (cases "len ?bs \<le> ?sc")
    case True
    obtain eof' bs' where r: "refill ?bs (r_sc st) = (eof', bs')" by force
    let ?sc1 = "scan_until ?stop (buf bs') (pos bs') (len bs')"
    from assms(1) True ne r have lt: "\<not> len bs' \<le> ?sc1"
      and sf: "store_field nCols nRow nCol st bs' eof' (r_sc st) ?sc1 = Inr st'"
      by (auto simp: row_field_def Let_def split: if_splits sum.splits)
    have "\<not> eof'"
    proof
      assume "eof'"
      with r have "refill ?bs (r_sc st) = (True, bs')" by simp
      from scan_until_refill_eof [OF this le True] lt show False by simp
    qed
    with store_field_Inr [OF sf] refill_len [OF r le] show ?thesis
      by (auto simp: rows_inv_def)
  next
    case False
    with assms(1) ne
    have sf: "store_field nCols nRow nCol st ?bs (r_eof st) (r_sc st) ?sc = Inr st'"
      by (auto simp: row_field_def Let_def split: if_splits sum.splits)
    with store_field_Inr [OF sf] ne le show ?thesis
      by (auto simp: rows_inv_def)
  qed
qed


lemma cols_loop_Next:
  assumes "cols_loop nCols nRow nCol st = Inr (Next st')" and "rows_inv st"
  shows "rows_inv st' \<and> length (r_rows st') = length (r_rows st) \<and>
         (\<forall>c. nCol \<le> c \<and> c \<le> nCols \<longrightarrow> r_rows st' ! (nRow * nCols + c) \<noteq> None) \<and>
         (\<forall>i. r_rows st ! i \<noteq> None \<longrightarrow> r_rows st' ! i \<noteq> None) \<and>
         (\<forall>i < length (r_rows st). r_rows st' ! i \<noteq> None \<longrightarrow> r_rows st ! i \<noteq> None \<or>
              (\<exists>c. nCol \<le> c \<and> c \<le> nCols \<and> i = nRow * nCols + c))"
  using assms
proof (induction nCols nRow nCol st rule: cols_loop.induct)
  case (1 nCols nRow nCol st)
  from "1.prems"(2) have ne: "\<not> r_eof st" by (simp add: rows_inv_def)
  show ?case
  proof (cases "nCol \<le> nCols")
    case False
    with "1.prems" have "st' = st" by (subst (asm) cols_loop.simps) simp
    with False "1.prems"(2) show ?thesis by auto
  next
    case True
    with ne "1.prems"(1) obtain st1 where rf: "row_field nCols nRow nCol st = Inr (Next st1)"
      and cl: "cols_loop nCols nRow (nCol + 1) st1 = Inr (Next st')"
      by (subst (asm) cols_loop.simps) (auto split: sum.splits flow.splits)
    from row_field_Next [OF rf "1.prems"(2)] obtain v where
      i1: "rows_inv st1" and lt: "nRow * nCols + nCol < length (r_rows st)"
      and upd: "r_rows st1 = (r_rows st)[nRow * nCols + nCol := Some v]"
      by blast
    from "1.IH" [OF _ rf _ cl i1] True ne
    have ih: "rows_inv st'" "length (r_rows st') = length (r_rows st1)"
      "\<forall>c. nCol + 1 \<le> c \<and> c \<le> nCols \<longrightarrow> r_rows st' ! (nRow * nCols + c) \<noteq> None"
      "\<forall>i. r_rows st1 ! i \<noteq> None \<longrightarrow> r_rows st' ! i \<noteq> None"
      "\<forall>i < length (r_rows st1). r_rows st' ! i \<noteq> None \<longrightarrow> r_rows st1 ! i \<noteq> None \<or>
              (\<exists>c. nCol + 1 \<le> c \<and> c \<le> nCols \<and> i = nRow * nCols + c)"
      by auto
    have a: "r_rows st' ! (nRow * nCols + c) \<noteq> None" if "nCol \<le> c" "c \<le> nCols" for c
    proof (cases "c = nCol")
      case True
      with upd lt have "r_rows st1 ! (nRow * nCols + c) \<noteq> None" by simp
      with ih(4) show ?thesis by blast
    next
      case False
      with that ih(3) show ?thesis by simp
    qed
    have b: "r_rows st' ! i \<noteq> None" if "r_rows st ! i \<noteq> None" for i
    proof -
      from that upd have "r_rows st1 ! i \<noteq> None"
        by (cases "i = nRow * nCols + nCol") (use lt in auto)
      with ih(4) show ?thesis by blast
    qed
    have c: "r_rows st ! i \<noteq> None \<or> (\<exists>c. nCol \<le> c \<and> c \<le> nCols \<and> i = nRow * nCols + c)"
      if "i < length (r_rows st)" "r_rows st' ! i \<noteq> None" for i
    proof -
      from that ih(5) upd
      have "r_rows st1 ! i \<noteq> None \<or> (\<exists>c. nCol + 1 \<le> c \<and> c \<le> nCols \<and> i = nRow * nCols + c)"
        by simp
      then show ?thesis
      proof
        assume "r_rows st1 ! i \<noteq> None"
        with upd True show ?thesis
          by (cases "i = nRow * nCols + nCol") auto
      next
        assume "\<exists>c. nCol + 1 \<le> c \<and> c \<le> nCols \<and> i = nRow * nCols + c"
        then show ?thesis by auto
      qed
    qed
    from ih(1,2) upd a b c show ?thesis by simp
  qed
qed


lemma rows_loop_Next:
  assumes "rows_loop nCols nRows nRow st = Inr (Next st')" and "rows_inv st"
  shows "length (r_rows st') = length (r_rows st) \<and>
         (\<forall>r c. nRow \<le> r \<and> r \<le> nRows \<and> 1 \<le> c \<and> c \<le> nCols \<longrightarrow>
                r_rows st' ! (r * nCols + c) \<noteq> None) \<and>
         (\<forall>i. r_rows st ! i \<noteq> None \<longrightarrow> r_rows st' ! i \<noteq> None) \<and>
         (\<forall>i < length (r_rows st). r_rows st' ! i \<noteq> None \<longrightarrow> r_rows st ! i \<noteq> None \<or>
              (\<exists>r c. nRow \<le> r \<and> r \<le> nRows \<and> 1 \<le> c \<and> c \<le> nCols \<and> i = r * nCols + c))"
  using assms
proof (induction nCols nRows nRow st rule: rows_loop.induct)
  case (1 nCols nRows nRow st)
  from "1.prems"(2) have ne: "\<not> r_eof st" by (simp add: rows_inv_def)
  show ?case
  proof (cases "nRow \<le> nRows")
    case False
    with "1.prems" have "st' = st" by (subst (asm) rows_loop.simps) simp
    with False show ?thesis by auto
  next
    case True
    with ne "1.prems"(1) obtain st1 where cl: "cols_loop nCols nRow 1 st = Inr (Next st1)"
      and rl: "rows_loop nCols nRows (nRow + 1) st1 = Inr (Next st')"
      by (subst (asm) rows_loop.simps) (auto split: sum.splits flow.splits)
    from cols_loop_Next [OF cl "1.prems"(2)]
    have c1: "rows_inv st1" "length (r_rows st1) = length (r_rows st)"
      "\<forall>c. 1 \<le> c \<and> c \<le> nCols \<longrightarrow> r_rows st1 ! (nRow * nCols + c) \<noteq> None"
      "\<forall>i. r_rows st ! i \<noteq> None \<longrightarrow> r_rows st1 ! i \<noteq> None"
      "\<forall>i < length (r_rows st). r_rows st1 ! i \<noteq> None \<longrightarrow> r_rows st ! i \<noteq> None \<or>
              (\<exists>c. 1 \<le> c \<and> c \<le> nCols \<and> i = nRow * nCols + c)"
      by auto
    from "1.IH" [OF _ cl _ rl c1(1)] True ne
    have ih: "length (r_rows st') = length (r_rows st1)"
      "\<forall>r c. nRow + 1 \<le> r \<and> r \<le> nRows \<and> 1 \<le> c \<and> c \<le> nCols \<longrightarrow>
                r_rows st' ! (r * nCols + c) \<noteq> None"
      "\<forall>i. r_rows st1 ! i \<noteq> None \<longrightarrow> r_rows st' ! i \<noteq> None"
      "\<forall>i < length (r_rows st1). r_rows st' ! i \<noteq> None \<longrightarrow> r_rows st1 ! i \<noteq> None \<or>
              (\<exists>r c. nRow + 1 \<le> r \<and> r \<le> nRows \<and> 1 \<le> c \<and> c \<le> nCols \<and> i = r * nCols + c)"
      by auto
    have a: "r_rows st' ! (r * nCols + c) \<noteq> None"
      if "nRow \<le> r" "r \<le> nRows" "1 \<le> c" "c \<le> nCols" for r c
    proof (cases "r = nRow")
      case True
      with that c1(3) have "r_rows st1 ! (r * nCols + c) \<noteq> None" by simp
      with ih(3) show ?thesis by blast
    next
      case False
      with that ih(2) show ?thesis by simp
    qed
    have b: "r_rows st' ! i \<noteq> None" if "r_rows st ! i \<noteq> None" for i
      using that c1(4) ih(3) by blast
    have c: "r_rows st ! i \<noteq> None \<or>
              (\<exists>r c. nRow \<le> r \<and> r \<le> nRows \<and> 1 \<le> c \<and> c \<le> nCols \<and> i = r * nCols + c)"
      if "i < length (r_rows st)" "r_rows st' ! i \<noteq> None" for i
    proof -
      from that ih(4) c1(2)
      have "r_rows st1 ! i \<noteq> None \<or>
              (\<exists>r c. nRow + 1 \<le> r \<and> r \<le> nRows \<and> 1 \<le> c \<and> c \<le> nCols \<and> i = r * nCols + c)"
        by simp
      then show ?thesis
      proof
        assume "r_rows st1 ! i \<noteq> None"
        with c1(5) that(1) True show ?thesis by blast
      next
        assume "\<exists>r c. nRow + 1 \<le> r \<and> r \<le> nRows \<and> 1 \<le> c \<and> c \<le> nCols \<and> i = r * nCols + c"
        then obtain r c where "nRow + 1 \<le> r" "r \<le> nRows" "1 \<le> c" "c \<le> nCols" "i = r * nCols + c"
          by blast
        then have "nRow \<le> r \<and> r \<le> nRows \<and> 1 \<le> c \<and> c \<le> nCols \<and> i = r * nCols + c"
          by simp
        then show ?thesis by blast
      qed
    qed
    from ih(1) c1(2) a b c show ?thesis by simp
  qed
qed

lemma fill_create_data:
  assumes "fst (stream_read rs n) \<noteq> []"
  shows "\<exists>bs. fill (bstream_create rs n) = (False, bs) \<and> len bs \<le> length (buf bs)"
  using assms
  by (auto simp: fill_def bstream_create_def bstream_read_def Let_def split: prod.splits)

lemma read_rows_rectangular:
  assumes "read_rows cfg rs nCols nRows = Inr (True, rs', rows)"
    and "fst (stream_read rs (BLOCK cfg)) \<noteq> []"
  shows "length rows = (nCols + 1) * (nRows + 1) \<and>
         (\<forall>r c. 1 \<le> r \<and> r \<le> nRows \<and> 1 \<le> c \<and> c \<le> nCols \<longrightarrow> rows ! (r * nCols + c) \<noteq> None) \<and>
         (\<forall>i < length rows. rows ! i \<noteq> None \<longrightarrow>
              (\<exists>r c. 1 \<le> r \<and> r \<le> nRows \<and> 1 \<le> c \<and> c \<le> nCols \<and> i = r * nCols + c))"
proof -
  from fill_create_data [OF assms(2)] obtain bs where
    f: "fill (bstream_create rs (BLOCK cfg)) = (False, bs)" and l: "len bs \<le> length (buf bs)"
    by blast
  define n where "n = (nCols + 1) * (nRows + 1)"
  define st where "st = \<lparr>r_bs = bs, r_sc = pos bs, r_eof = False, r_rows = replicate n None\<rparr>"
  from assms(1) f obtain st' where rl: "rows_loop nCols nRows 1 st = Inr (Next st')"
    and r: "rows = r_rows st'"
    by (auto simp: read_rows_def st_def n_def split: sum.splits flow.splits if_splits)
  have inv: "rows_inv st" using l by (simp add: rows_inv_def st_def)
  have init: "length (r_rows st) = n" "\<And>i. i < n \<Longrightarrow> r_rows st ! i = None"
    by (simp_all add: st_def)
  from rows_loop_Next [OF rl inv]
  have len: "length (r_rows st') = length (r_rows st)"
    and full: "\<forall>r c. 1 \<le> r \<and> r \<le> nRows \<and> 1 \<le> c \<and> c \<le> nCols \<longrightarrow>
                r_rows st' ! (r * nCols + c) \<noteq> None"
    and only: "\<forall>i < length (r_rows st). r_rows st' ! i \<noteq> None \<longrightarrow> r_rows st ! i \<noteq> None \<or>
              (\<exists>r c. 1 \<le> r \<and> r \<le> nRows \<and> 1 \<le> c \<and> c \<le> nCols \<and> i = r * nCols + c)"
    by blast+
  from len init(1) have l': "length rows = n" by (simp add: r)
  have "\<exists>r c. 1 \<le> r \<and> r \<le> nRows \<and> 1 \<le> c \<and> c \<le> nCols \<and> i = r * nCols + c"
    if "i < length rows" "rows ! i \<noteq> None" for i
  proof -
    from that l' init have "i < length (r_rows st)" "r_rows st ! i = None"
      by simp_all
    with only that(2) r show ?thesis by metis
  qed
  with l' full r show ?thesis
    unfolding n_def by blast
qed

lemma unquote_none:
  assumes "f = [] \<or> hd f \<noteq> q \<or> last f \<noteq> q" and "q \<noteq> NUL"
  shows "unquote q (pre @ f @ NUL # tail) (length pre) (length pre + length f) =
           Inr (pre @ f @ NUL # tail, length pre)"
proof (cases "f = []")
  case True
  with assms(2) show ?thesis by (simp add: unquote_def nth_append)
next
  case False
  then have h: "(pre @ f @ NUL # tail) ! length pre = hd f"
    by (simp add: nth_append hd_conv_nth)
  from False have e: "length pre + length f - 1 = length pre + (length f - 1)"
    by (cases f) auto
  from False have l: "(pre @ f @ NUL # tail) ! (length pre + length f - 1) = last f"
    unfolding e by (simp add: nth_append last_conv_nth)
  from False assms(1) h l show ?thesis
    by (auto simp: unquote_def)
qed

lemma unquote_pair:
  assumes "f \<noteq> []" and "hd f = q" and "last f = q"
  shows "unquote q (pre @ f @ NUL # tail) (length pre) (length pre + length f) =
           Inr (pre @ butlast f @ NUL # NUL # tail, Suc (length pre))"
proof -
  from assms have h: "(pre @ f @ NUL # tail) ! length pre = q"
    by (simp add: nth_append hd_conv_nth)
  from assms(1) have e: "length pre + length f - 1 = length pre + (length f - 1)"
    by (cases f) auto
  from assms have l: "(pre @ f @ NUL # tail) ! (length pre + length f - 1) = q"
    unfolding e by (simp add: nth_append last_conv_nth)
  from assms(1) obtain g where g: "f = g @ [q]"
    using assms(3) by (metis append_butlast_last_id)
  have "(pre @ f @ NUL # tail)[length pre + length f - 1 := NUL] = pre @ butlast f @ NUL # NUL # tail"
    unfolding e by (simp add: g list_update_append)
  with h l assms(1) show ?thesis
    by (simp add: unquote_def)
qed

lemma unquote_after_pair:
  assumes "f \<noteq> []" and "q \<noteq> NUL"
  shows "unquote q (pre @ butlast f @ NUL # NUL # tail) (Suc (length pre)) (length pre + length f) =
           Inr (pre @ butlast f @ NUL # NUL # tail, Suc (length pre))"
proof -
  from assms(1) have e: "length pre + length f - 1 = length pre + length (butlast f)"
    by (cases f) auto
  have "(pre @ butlast f @ NUL # NUL # tail) ! (length pre + length f - 1) = NUL"
    unfolding e by (simp add: nth_append)
  with assms show ?thesis
    by (auto simp: unquote_def)
qed

lemma strdup_after_pair:
  assumes "NUL \<notin> set f"
  shows "strdup_at (pre @ butlast f @ NUL # NUL # tail) (Suc (length pre)) = butlast (tl f)"
proof (cases "butlast f")
  case Nil
  have "strdup_at ((pre @ [NUL]) @ [] @ NUL # tail) (length (pre @ [NUL])) = []"
    by (rule strdup_at_field) simp
  with Nil show ?thesis by (simp add: butlast_tl)
next
  case (Cons a g)
  have "NUL \<notin> set (butlast f)" using assms by (meson in_set_butlastD)
  with Cons have "NUL \<notin> set g" by simp
  then have "strdup_at ((pre @ [a]) @ g @ NUL # NUL # tail) (length (pre @ [a])) = g"
    by (rule strdup_at_field)
  with Cons show ?thesis by (simp add: butlast_tl)
qed

lemma store_field_buffered:
  assumes "NUL \<notin> set f" and "nRow * nCols + nCol < length rows"
    and "buf bs = pre @ f @ d # tail" and that: "length (r_rows st) = length rows"
  shows "\<exists>f'. length f' = length f \<and>
           store_field nCols nRow nCol st bs eof (length pre) (length pre + length f) =
             Inr (st\<lparr>r_bs := bs\<lparr>buf := pre @ f' @ NUL # tail\<rparr>, r_eof := eof,
                     r_sc := length pre + length f + 1,
                     r_rows := (r_rows st)[nRow * nCols + nCol := Some (field_value f)]\<rparr>)"
proof -
  have m1: "(buf bs)[length pre + length f := NUL] = pre @ f @ NUL # tail"
    by (simp add: assms(3) list_update_append)
  have idx: "nRow * nCols + nCol < length (r_rows st)" using assms(2) that by simp
  show ?thesis
  proof (cases "f \<noteq> [] \<and> hd f = DQUOTE \<and> last f = DQUOTE")
    case True
    then have u1: "unquote DQUOTE (pre @ f @ NUL # tail) (length pre) (length pre + length f) =
                     Inr (pre @ butlast f @ NUL # NUL # tail, Suc (length pre))"
      by (simp add: unquote_pair)
    from True have u2: "unquote SQUOTE (pre @ butlast f @ NUL # NUL # tail) (Suc (length pre)) (length pre + length f) =
                     Inr (pre @ butlast f @ NUL # NUL # tail, Suc (length pre))"
      by (intro unquote_after_pair) auto
    from True obtain g where g: "f = DQUOTE # g \<or> f = [DQUOTE]" by (cases f) auto
    have sd: "strdup_at (pre @ butlast f @ NUL # NUL # tail) (Suc (length pre)) = butlast (tl f)"
      using assms(1) by (rule strdup_after_pair)
    have fv: "field_value f = butlast (tl f)" using True by (simp add: field_value_def)
    have "length (butlast f @ [NUL]) = length f" using True by simp
    moreover have "store_field nCols nRow nCol st bs eof (length pre) (length pre + length f) =
             Inr (st\<lparr>r_bs := bs\<lparr>buf := pre @ (butlast f @ [NUL]) @ NUL # tail\<rparr>, r_eof := eof,
                     r_sc := length pre + length f + 1,
                     r_rows := (r_rows st)[nRow * nCols + nCol := Some (field_value f)]\<rparr>)"
      using idx by (simp add: store_field_def m1 u1 u2 sd fv)
    ultimately show ?thesis by blast
  next
    case nd: False
    then have u1: "unquote DQUOTE (pre @ f @ NUL # tail) (length pre) (length pre + length f) =
                     Inr (pre @ f @ NUL # tail, length pre)"
      by (intro unquote_none) auto
    show ?thesis
    proof (cases "f \<noteq> [] \<and> hd f = SQUOTE \<and> last f = SQUOTE")
      case True
      then have u2: "unquote SQUOTE (pre @ f @ NUL # tail) (length pre) (length pre + length f) =
                     Inr (pre @ butlast f @ NUL # NUL # tail, Suc (length pre))"
        by (simp add: unquote_pair)
    have sd: "strdup_at (pre @ butlast f @ NUL # NUL # tail) (Suc (length pre)) = butlast (tl f)"
      using assms(1) by (rule strdup_after_pair)
      have fv: "field_value f = butlast (tl f)" using True nd by (simp add: field_value_def)
      have "length (butlast f @ [NUL]) = length f" using True by simp
      moreover have "store_field nCols nRow nCol st bs eof (length pre) (length pre + length f) =
             Inr (st\<lparr>r_bs := bs\<lparr>buf := pre @ (butlast f @ [NUL]) @ NUL # tail\<rparr>, r_eof := eof,
                     r_sc := length pre + length f + 1,
                     r_rows := (r_rows st)[nRow * nCols + nCol := Some (field_value f)]\<rparr>)"
        using idx by (simp add: store_field_def m1 u1 u2 sd fv)
      ultimately show ?thesis by blast
    next
      case ns: False
      then have u2: "unquote SQUOTE (pre @ f @ NUL # tail) (length pre) (length pre + length f) =
                     Inr (pre @ f @ NUL # tail, length pre)"
        by (intro unquote_none) auto
      have sd: "strdup_at (pre @ f @ NUL # tail) (length pre) = f"
        using assms(1) by (rule strdup_at_field)
      have fv: "field_value f = f" using nd ns by (auto simp: field_value_def)
      have "store_field nCols nRow nCol st bs eof (length pre) (length pre + length f) =
             Inr (st\<lparr>r_bs := bs\<lparr>buf := pre @ f @ NUL # tail\<rparr>, r_eof := eof,
                     r_sc := length pre + length f + 1,
                     r_rows := (r_rows st)[nRow * nCols + nCol := Some (field_value f)]\<rparr>)"
        using idx by (simp add: store_field_def m1 u1 u2 sd fv)
      then show ?thesis by blast
    qed
  qed
qed


lemma payload_of_simps:
  "payload_of [] = []"
  "payload_of (c # cs) = fst c @ snd c # payload_of cs"
  "payload_of (as @ bs) = payload_of as @ payload_of bs"
  by (simp_all add: payload_of_def)

lemma row_field_buffered:
  assumes "cell_ok (f, d)" and "buf (r_bs st) = pre @ f @ d # tail" and "r_sc st = length pre"
    and "\<not> r_eof st" and "length pre + length f < len (r_bs st)"
    and "nRow * nCols + nCol < length (r_rows st)"
  shows "\<exists>st' pre'. row_field nCols nRow nCol st = Inr (Next st') \<and>
           length pre' = length pre + length f + 1 \<and>
           r_bs st' = (r_bs st)\<lparr>buf := pre' @ tail\<rparr> \<and> r_sc st' = length pre' \<and> \<not> r_eof st' \<and>
           r_rows st' = (r_rows st)[nRow * nCols + nCol := Some (field_value f)]"
proof -
  let ?stop = "\<lambda>c. c = TAB \<or> c = LF"
  from assms(1) have nf: "\<forall>x \<in> set f. \<not> ?stop x" and sd: "?stop d" and nn: "NUL \<notin> set f"
    by (auto simp: cell_ok_def)
  from scan_until_field [where pre = pre and ys = tail and ec = "len (r_bs st)", OF nf sd] assms(5)
  have sc: "scan_until ?stop (buf (r_bs st)) (length pre) (len (r_bs st)) = length pre + length f"
    by (simp add: assms(2))
  from store_field_buffered [where st = st and eof = "r_eof st", OF nn assms(6) assms(2) refl]
  obtain f' where lf: "length f' = length f"
    and sf: "store_field nCols nRow nCol st (r_bs st) (r_eof st) (length pre) (length pre + length f) =
             Inr (st\<lparr>r_bs := (r_bs st)\<lparr>buf := pre @ f' @ NUL # tail\<rparr>, r_eof := r_eof st,
                     r_sc := length pre + length f + 1,
                     r_rows := (r_rows st)[nRow * nCols + nCol := Some (field_value f)]\<rparr>)"
    by blast
  let ?st' = "st\<lparr>r_bs := (r_bs st)\<lparr>buf := pre @ f' @ NUL # tail\<rparr>, r_eof := r_eof st,
                     r_sc := length pre + length f + 1,
                     r_rows := (r_rows st)[nRow * nCols + nCol := Some (field_value f)]\<rparr>"
  have "row_field nCols nRow nCol st = Inr (Next ?st')"
    using assms(3,4,5) sf by (simp add: row_field_def Let_def sc)
  moreover have "length (pre @ f' @ [NUL]) = length pre + length f + 1" using lf by simp
  moreover have "r_bs ?st' = (r_bs st)\<lparr>buf := (pre @ f' @ [NUL]) @ tail\<rparr>" by simp
  moreover have "r_sc ?st' = length (pre @ f' @ [NUL])" using lf by simp
  moreover have "\<not> r_eof ?st'" using assms(4) by simp
  moreover have "r_rows ?st' = (r_rows st)[nRow * nCols + nCol := Some (field_value f)]" by simp
  ultimately show ?thesis by blast
qed

lemma cols_loop_buffered:
  assumes "list_all cell_ok cells" and "length cells = Suc nCols - nCol"
    and "buf (r_bs st) = pre @ payload_of cells @ tail" and "r_sc st = length pre"
    and "\<not> r_eof st" and "length pre + length (payload_of cells) \<le> len (r_bs st)"
    and "nRow * nCols + nCol + length cells \<le> length (r_rows st)"
  shows "\<exists>st' pre'. cols_loop nCols nRow nCol st = Inr (Next st') \<and>
           length pre' = length pre + length (payload_of cells) \<and>
           r_bs st' = (r_bs st)\<lparr>buf := pre' @ tail\<rparr> \<and> r_sc st' = length pre' \<and> \<not> r_eof st' \<and>
           r_rows st' = take (nRow * nCols + nCol) (r_rows st) @
                        map (\<lambda>c. Some (field_value (fst c))) cells @
                        drop (nRow * nCols + nCol + length cells) (r_rows st)"
  using assms
proof (induction cells arbitrary: st pre nCol)
  case Nil
  then have "\<not> nCol \<le> nCols" by simp
  then have "cols_loop nCols nRow nCol st = Inr (Next st)"
    by (subst cols_loop.simps) simp
  moreover have "r_bs st = (r_bs st)\<lparr>buf := pre @ tail\<rparr>"
    using Nil.prems(3) by (simp add: payload_of_simps)
  ultimately show ?case using Nil.prems by (auto simp: payload_of_simps)
next
  case (Cons c cs)
  obtain f d where c: "c = (f, d)" by (cases c)
  let ?i = "nRow * nCols + nCol"
  from Cons.prems(2) have le: "nCol \<le> nCols" by simp
  from Cons.prems(1) have ok: "cell_ok (f, d)" and oks: "list_all cell_ok cs" by (simp_all add: c)
  have b: "buf (r_bs st) = pre @ f @ d # (payload_of cs @ tail)"
    using Cons.prems(3) by (simp add: c payload_of_simps)
  have l: "length pre + length f < len (r_bs st)"
    using Cons.prems(6) by (simp add: c payload_of_simps)
  have i: "?i < length (r_rows st)" using Cons.prems(7) by simp
  from row_field_buffered [OF ok b Cons.prems(4,5) l i]
  obtain st1 pre1 where rf: "row_field nCols nRow nCol st = Inr (Next st1)"
    and l1: "length pre1 = length pre + length f + 1"
    and b1: "r_bs st1 = (r_bs st)\<lparr>buf := pre1 @ payload_of cs @ tail\<rparr>"
    and s1: "r_sc st1 = length pre1" and e1: "\<not> r_eof st1"
    and r1: "r_rows st1 = (r_rows st)[?i := Some (field_value f)]"
    by blast
  have p2: "length cs = Suc nCols - (nCol + 1)" using Cons.prems(2) by simp
  have p3: "buf (r_bs st1) = pre1 @ payload_of cs @ tail" by (simp add: b1)
  have p6: "length pre1 + length (payload_of cs) \<le> len (r_bs st1)"
    using Cons.prems(6) l1 by (simp add: b1 c payload_of_simps)
  have p7: "nRow * nCols + (nCol + 1) + length cs \<le> length (r_rows st1)"
    using Cons.prems(7) by (simp add: r1)
  from Cons.IH [OF oks p2 p3 s1 e1 p6 p7]
  obtain st' pre' where cl: "cols_loop nCols nRow (nCol + 1) st1 = Inr (Next st')"
    and l': "length pre' = length pre1 + length (payload_of cs)"
    and b': "r_bs st' = (r_bs st1)\<lparr>buf := pre' @ tail\<rparr>"
    and s': "r_sc st' = length pre'" and e': "\<not> r_eof st'"
    and r': "r_rows st' = take (nRow * nCols + (nCol + 1)) (r_rows st1) @
                        map (\<lambda>c. Some (field_value (fst c))) cs @
                        drop (nRow * nCols + (nCol + 1) + length cs) (r_rows st1)"
    by blast
  have "cols_loop nCols nRow nCol st = Inr (Next st')"
    using le Cons.prems(5) rf cl by (subst cols_loop.simps) simp
  moreover have "length pre' = length pre + length (payload_of (c # cs))"
    using l' l1 by (simp add: c payload_of_simps)
  moreover have "r_bs st' = (r_bs st)\<lparr>buf := pre' @ tail\<rparr>"
    by (simp add: b' b1)
  moreover have "r_rows st' = take ?i (r_rows st) @
                        map (\<lambda>c. Some (field_value (fst c))) (c # cs) @
                        drop (?i + length (c # cs)) (r_rows st)"
  proof -
    have "take (Suc ?i) ((r_rows st)[?i := Some (field_value f)]) = take ?i (r_rows st) @ [Some (field_value f)]"
      using i by (simp add: take_Suc_conv_app_nth)
    moreover have "drop (Suc ?i + length cs) ((r_rows st)[?i := Some (field_value f)]) =
                   drop (Suc ?i + length cs) (r_rows st)"
      by simp
    ultimately show ?thesis
      by (simp add: r' r1 c)
  qed
  ultimately show ?case using s' e' by blast
qed

lemma take_filled:
  "i + n \<le> length xs \<Longrightarrow> length vs = n \<Longrightarrow>
     take (i + n) (take i xs @ vs @ drop (i + n) xs) = take i xs @ vs"
  by simp

lemma drop_filled:
  "i + n \<le> length xs \<Longrightarrow> length vs = n \<Longrightarrow>
     drop (i + n + m) (take i xs @ vs @ drop (i + n) xs) = drop (i + n + m) xs"
  by (simp add: add.commute)

lemma rows_loop_buffered:
  assumes "list_all cell_ok cells" and "length cells = k * nCols" and "k = Suc nRows - nRow"
    and "buf (r_bs st) = pre @ payload_of cells @ tail" and "r_sc st = length pre"
    and "\<not> r_eof st" and "length pre + length (payload_of cells) \<le> len (r_bs st)"
    and "nRow * nCols + 1 + length cells \<le> length (r_rows st)"
  shows "\<exists>st'. rows_loop nCols nRows nRow st = Inr (Next st') \<and>
           strm (r_bs st') = strm (r_bs st) \<and>
           r_rows st' = take (nRow * nCols + 1) (r_rows st) @
                        map (\<lambda>c. Some (field_value (fst c))) cells @
                        drop (nRow * nCols + 1 + length cells) (r_rows st)"
  using assms
proof (induction k arbitrary: st pre nRow cells)
  case 0
  then have "\<not> nRow \<le> nRows" by simp
  then have "rows_loop nCols nRows nRow st = Inr (Next st)"
    by (subst rows_loop.simps) simp
  with "0.prems" show ?case by simp
next
  case (Suc k)
  let ?a = "take nCols cells"
  let ?b = "drop nCols cells"
  let ?i = "nRow * nCols + 1"
  from Suc.prems(3) have le: "nRow \<le> nRows" by simp
  have la: "length ?a = nCols" and lb: "length ?b = k * nCols"
    using Suc.prems(2) by simp_all
  have ab: "cells = ?a @ ?b" by simp
  have pa: "payload_of cells = payload_of ?a @ payload_of ?b"
    by (subst ab) (simp only: payload_of_simps)
  have oka: "list_all cell_ok ?a" and okb: "list_all cell_ok ?b"
    using Suc.prems(1) by (auto simp: list_all_iff dest: in_set_takeD in_set_dropD)
  have c2: "length ?a = Suc nCols - 1" using la by simp
  have c3: "buf (r_bs st) = pre @ payload_of ?a @ (payload_of ?b @ tail)"
    using Suc.prems(4) by (simp add: pa)
  have c6: "length pre + length (payload_of ?a) \<le> len (r_bs st)"
    using Suc.prems(7) by (simp add: pa)
  have c7: "nRow * nCols + 1 + length ?a \<le> length (r_rows st)"
    using Suc.prems(8) Suc.prems(2) by simp
  from cols_loop_buffered [OF oka c2 c3 Suc.prems(5,6) c6 c7]
  obtain st1 pre1 where cl: "cols_loop nCols nRow 1 st = Inr (Next st1)"
    and l1: "length pre1 = length pre + length (payload_of ?a)"
    and b1: "r_bs st1 = (r_bs st)\<lparr>buf := pre1 @ payload_of ?b @ tail\<rparr>"
    and s1: "r_sc st1 = length pre1" and e1: "\<not> r_eof st1"
    and r1: "r_rows st1 = take ?i (r_rows st) @ map (\<lambda>c. Some (field_value (fst c))) ?a @
                          drop (?i + length ?a) (r_rows st)"
    by blast
  have lr1: "length (r_rows st1) = length (r_rows st)"
    using c7 by (simp add: r1)
  have d3: "k = Suc nRows - (nRow + 1)" using Suc.prems(3) by simp
  have d4: "buf (r_bs st1) = pre1 @ payload_of ?b @ tail" by (simp add: b1)
  have d7: "length pre1 + length (payload_of ?b) \<le> len (r_bs st1)"
    using Suc.prems(7) l1 by (simp add: b1 pa)
  have d8: "(nRow + 1) * nCols + 1 + length ?b \<le> length (r_rows st1)"
    using Suc.prems(8) Suc.prems(2) by (simp add: lr1)
  from Suc.IH [OF okb lb d3 d4 s1 e1 d7 d8]
  obtain st' where rl: "rows_loop nCols nRows (nRow + 1) st1 = Inr (Next st')"
    and m': "strm (r_bs st') = strm (r_bs st1)"
    and r': "r_rows st' = take ((nRow + 1) * nCols + 1) (r_rows st1) @
                        map (\<lambda>c. Some (field_value (fst c))) ?b @
                        drop ((nRow + 1) * nCols + 1 + length ?b) (r_rows st1)"
    by blast
  have "rows_loop nCols nRows nRow st = Inr (Next st')"
    using le Suc.prems(6) cl rl by (subst rows_loop.simps) simp
  moreover have "strm (r_bs st') = strm (r_bs st)" by (simp add: m' b1)
  moreover have "r_rows st' = take ?i (r_rows st) @ map (\<lambda>c. Some (field_value (fst c))) cells @
                        drop (?i + length cells) (r_rows st)"
  proof -
    have e: "(nRow + 1) * nCols + 1 = ?i + nCols" by simp
    have c7': "?i + nCols \<le> length (r_rows st)" using c7 la by simp
    have lm: "length (map (\<lambda>c. Some (field_value (fst c))) ?a) = nCols" using la by simp
    have r1': "r_rows st1 = take ?i (r_rows st) @ map (\<lambda>c. Some (field_value (fst c))) ?a @
                          drop (?i + nCols) (r_rows st)"
      using r1 la by simp
    have t: "take (?i + nCols) (r_rows st1) =
             take ?i (r_rows st) @ map (\<lambda>c. Some (field_value (fst c))) ?a"
      unfolding r1' by (rule take_filled [OF c7' lm])
    have ix: "?i + length cells = ?i + nCols + length ?b"
      using Suc.prems(2) by simp
    have d: "drop (?i + nCols + length ?b) (r_rows st1) = drop (?i + length cells) (r_rows st)"
      unfolding r1' ix by (rule drop_filled [OF c7' lm])
    have "map (\<lambda>c. Some (field_value (fst c))) cells =
          map (\<lambda>c. Some (field_value (fst c))) ?a @ map (\<lambda>c. Some (field_value (fst c))) ?b"
      by (simp only: map_append [symmetric] append_take_drop_id)
    with t d show ?thesis by (simp only: r' e append_assoc)
  qed
  ultimately show ?case by blast
qed


lemma fill_create_one_read:
  assumes "p \<noteq> []" and "length p \<le> n"
  shows "fill (bstream_create (Bytes p # rs) n) =
           (False, \<lparr>strm = rs, buf = p @ [NUL], pos = 0, len = length p, size_bs = n\<rparr>)"
  using assms by (simp add: fill_def bstream_create_def bstream_read_def)

lemma fill_create_nothing:
  "fill (bstream_create (Bytes [] # rs) n) =
     (True, \<lparr>strm = rs, buf = [NUL], pos = 0, len = 0, size_bs = n\<rparr>)"
  by (simp add: fill_def bstream_create_def bstream_read_def)

lemma grid_size:
  "(nCols + 1) * (nRows + 1) = nCols + 1 + nRows * nCols + (nRows :: nat)"
  by (simp add: algebra_simps)

lemma read_rows_one_read:
  assumes "list_all cell_ok cells" and "length cells = nRows * nCols"
    and "length (payload_of cells @ extra) \<le> BLOCK cfg"
    and "(int nCols + 1) * (int nRows + 1) \<le> INT_MAX"
  shows "read_rows cfg (Bytes (payload_of cells @ extra) # rs) nCols nRows =
           Inr (True, rs, replicate (nCols + 1) None @ map (\<lambda>c. Some (field_value (fst c))) cells @
                          replicate nRows None)"
proof (cases "payload_of cells @ extra = []")
  case True
  then have "payload_of cells = []" by simp
  then have "cells = []" by (cases cells) (simp_all add: payload_of_simps)
  with assms(2) have z: "nRows * nCols = 0" by simp
  have "rows_loop nCols nRows 1 \<lparr>r_bs = \<lparr>strm = rs, buf = [NUL], pos = 0, len = 0, size_bs = BLOCK cfg\<rparr>,
          r_sc = 0, r_eof = True, r_rows = replicate ((nCols + 1) * (nRows + 1)) None\<rparr> =
        Inr (Next \<lparr>r_bs = \<lparr>strm = rs, buf = [NUL], pos = 0, len = 0, size_bs = BLOCK cfg\<rparr>,
          r_sc = 0, r_eof = True, r_rows = replicate ((nCols + 1) * (nRows + 1)) None\<rparr>)"
    by (subst rows_loop.simps) simp
  moreover have "replicate ((nCols + 1) * (nRows + 1)) None =
                 replicate (nCols + 1) (None :: string option) @ replicate nRows None"
    unfolding grid_size z by (simp add: replicate_add [symmetric])
  ultimately show ?thesis
    using assms(4) True \<open>cells = []\<close>
    by (simp add: read_rows_def fill_create_nothing)
next
  case False
  let ?p = "payload_of cells @ extra"
  let ?N = "(nCols + 1) * (nRows + 1)"
  let ?bs = "\<lparr>strm = rs, buf = ?p @ [NUL], pos = 0, len = length ?p, size_bs = BLOCK cfg\<rparr>"
  let ?st = "\<lparr>r_bs = ?bs, r_sc = pos ?bs, r_eof = False, r_rows = replicate ?N None\<rparr>"
  have f: "fill (bstream_create (Bytes ?p # rs) (BLOCK cfg)) = (False, ?bs)"
    using False assms(3) by (rule fill_create_one_read)
  have h3: "nRows = Suc nRows - 1" by simp
  have h4: "buf (r_bs ?st) = [] @ payload_of cells @ (extra @ [NUL])" by simp
  have h5: "r_sc ?st = length ([] :: string)" by simp
  have h6: "\<not> r_eof ?st" by simp
  have h7: "length ([] :: string) + length (payload_of cells) \<le> len (r_bs ?st)" by simp
  have h8: "1 * nCols + 1 + length cells \<le> length (r_rows ?st)"
    using assms(2) by (simp add: algebra_simps)
  from rows_loop_buffered [OF assms(1,2) h3 h4 h5 h6 h7 h8]
  obtain st' where rl: "rows_loop nCols nRows 1 ?st = Inr (Next st')"
    and m: "strm (r_bs st') = rs"
    and r: "r_rows st' = take (1 * nCols + 1) (replicate ?N None) @
                        map (\<lambda>c. Some (field_value (fst c))) cells @
                        drop (1 * nCols + 1 + length cells) (replicate ?N None)"
    by auto
  have t: "take (1 * nCols + 1) (replicate ?N None) = replicate (nCols + 1) (None :: string option)"
    unfolding grid_size by simp
  have d: "drop (1 * nCols + 1 + length cells) (replicate ?N None) = replicate nRows (None :: string option)"
    unfolding grid_size assms(2) by simp
  have rr: "r_rows st' = replicate (nCols + 1) None @ map (\<lambda>c. Some (field_value (fst c))) cells @
                        replicate nRows None"
    by (simp only: r t d)
  from assms(4) have "\<not> INT_MAX < (int nCols + 1) * (int nRows + 1)" by simp
  then show ?thesis
    using rl m by (simp add: read_rows_def f rr)
qed

text \<open>
  Claim C9, amended. The grid is rectangular, but no row is checked against the
  column count. First: whenever the first read of the table block delivers data and
  the block runs to its end, the array \<^verbatim>\<open>ResultRows\<close> has \<open>(nCols + 1) * (nRows + 1)\<close>
  entries, and a field is stored at \<open>r * nCols + c\<close> for every row \<open>r\<close> in \<open>1..nRows\<close>
  and column \<open>c\<close> in \<open>1..nCols\<close>, and nowhere else. Second: when \<open>nRows * nCols\<close> fields,
  each free of tab, newline and NUL and each ended by a tab or by a newline,
  whichever of the two, arrive in one read of at most \<open>BLOCK\<close> bytes, with any bytes
  behind them, the block runs to its end and reads nothing further; the field
  number \<open>k\<close> (from 0) in the order of arrival is stored at index \<open>nCols + 1 + k\<close>,
  without one pair of enclosing double quotes or else single quotes, and every other
  entry stays empty. So the lines of the payload may have any numbers of fields:
  the decode does not fail, the fields fill the grid in the order they arrive, and
  the bytes behind the last field are dropped.
\<close>

theorem C9_rectangular_grid:
  "(read_rows cfg rs nCols nRows = Inr (True, rs', rows) \<and>
    fst (stream_read rs (BLOCK cfg)) \<noteq> [] \<longrightarrow>
      length rows = (nCols + 1) * (nRows + 1) \<and>
      (\<forall>r c. 1 \<le> r \<and> r \<le> nRows \<and> 1 \<le> c \<and> c \<le> nCols \<longrightarrow> rows ! (r * nCols + c) \<noteq> None) \<and>
      (\<forall>i < length rows. rows ! i \<noteq> None \<longrightarrow>
           (\<exists>r c. 1 \<le> r \<and> r \<le> nRows \<and> 1 \<le> c \<and> c \<le> nCols \<and> i = r * nCols + c))) \<and>
   (list_all cell_ok cells \<and> length cells = nRows * nCols \<and>
    length (payload_of cells @ extra) \<le> BLOCK cfg \<and>
    (int nCols + 1) * (int nRows + 1) \<le> INT_MAX \<longrightarrow>
      read_rows cfg (Bytes (payload_of cells @ extra) # rs0) nCols nRows =
        Inr (True, rs0,
             replicate (nCols + 1) None @ map (\<lambda>c. Some (field_value (fst c))) cells @
             replicate nRows None))"
  using read_rows_rectangular [of cfg rs nCols nRows rs' rows]
    read_rows_one_read [of cells nRows nCols extra cfg rs0]
  by blast

theorem C9_rectangular_grid_witness:
  "list_all cell_ok [(''1'', TAB), (''Alice'', TAB), ([SQUOTE] @ ''x'' @ [SQUOTE], LF),
                     ([DQUOTE] @ ''Bob, Jr'' @ [DQUOTE], LF)] \<and>
   length [(''1'', TAB), (''Alice'', TAB), ([SQUOTE] @ ''x'' @ [SQUOTE], LF),
           ([DQUOTE] @ ''Bob, Jr'' @ [DQUOTE], LF)] = 2 * 2 \<and>
   length (payload_of [(''1'', TAB), (''Alice'', TAB), ([SQUOTE] @ ''x'' @ [SQUOTE], LF),
                       ([DQUOTE] @ ''Bob, Jr'' @ [DQUOTE], LF)] @ ''rest'') \<le> BLOCK example_cfg \<and>
   (int 2 + 1) * (int 2 + 1) \<le> INT_MAX \<and>
   fst (stream_read
          [Bytes (payload_of [(''1'', TAB), (''Alice'', TAB), ([SQUOTE] @ ''x'' @ [SQUOTE], LF),
                              ([DQUOTE] @ ''Bob, Jr'' @ [DQUOTE], LF)] @ ''rest''), Int_item 7]
          (BLOCK example_cfg)) \<noteq> [] \<and>
   read_rows example_cfg
     [Bytes (payload_of [(''1'', TAB), (''Alice'', TAB), ([SQUOTE] @ ''x'' @ [SQUOTE], LF),
                         ([DQUOTE] @ ''Bob, Jr'' @ [DQUOTE], LF)] @ ''rest''), Int_item 7] 2 2 =
     Inr (True, [Int_item 7],
          [None, None, None, Some ''1'', Some ''Alice'', Some ''x'', Some ''Bob, Jr'', None, None]) \<and>
   length [None, None, None, Some ''1'', Some ''Alice'', Some ''x'', Some ''Bob, Jr'', None, None] =
     (2 + 1) * (2 + 1)"
proof -
  let ?cells = "[(''1'', TAB), (''Alice'', TAB), ([SQUOTE] @ ''x'' @ [SQUOTE], LF),
                 ([DQUOTE] @ ''Bob, Jr'' @ [DQUOTE], LF)]"
  let ?rs = "[Bytes (payload_of ?cells @ ''rest''), Int_item 7]"
  let ?rows = "[None, None, None, Some ''1'', Some ''Alice'', Some ''x'', Some ''Bob, Jr'', None, None]"
  have h1: "list_all cell_ok ?cells"
    by (simp add: cell_ok_def)
  have h2: "length ?cells = 2 * 2"
    by simp
  have h3: "length (payload_of ?cells @ ''rest'') \<le> BLOCK example_cfg"
    by (simp add: payload_of_def example_cfg_def)
  have h4: "(int 2 + 1) * (int 2 + 1) \<le> INT_MAX"
    by (simp add: INT_MAX_def)
  have h5: "fst (stream_read ?rs (BLOCK example_cfg)) \<noteq> []"
    by (simp add: payload_of_def example_cfg_def)
  note grid = C9_rectangular_grid [where cfg = example_cfg and nCols = 2 and nRows = 2
      and cells = ?cells and extra = "''rest''" and ?rs0.0 = "[Int_item 7]"
      and rs = ?rs and rs' = "[Int_item 7]" and rows = ?rows]
  from grid h1 h2 h3 h4
  have "read_rows example_cfg ?rs 2 2 =
          Inr (True, [Int_item 7],
               replicate (2 + 1) None @ map (\<lambda>c. Some (field_value (fst c))) ?cells @
               replicate 2 None)"
    by blast
  then have run: "read_rows example_cfg ?rs 2 2 = Inr (True, [Int_item 7], ?rows)"
    by (simp add: field_value_def numeral_2_eq_2 numeral_3_eq_3)
  from grid run h5 have "length ?rows = (2 + 1) * (2 + 1)"
    by blast
  with h1 h2 h3 h4 h5 run show ?thesis
    by blast
qed

end
